theory Spec2Isabelle
  imports Complex_Main "HOL-Library.AList"
begin

section \<open>Game state machine (src/game/state-machine.ts)\<close>

text \<open>
  The machine keeps the current \<open>GameState\<close> and a context object with three optional
  properties.  A property of a JavaScript object is either absent or present with a value
  (which may itself be \<open>undefined\<close>), so the context and the partial update are maps from
  property keys to values.
\<close>

datatype GameState =
  MENU | LOADING | READY | REVEAL | CASCADE_LOOP | END_TICKET | PACK_LIST | REPLAY | SUMMARY

datatype GameMode = nivel1 | nivel2 | pack

datatype ctxKey = KeyMode | KeyPackId | KeyTicketIndex

datatype ctxValue = VUndefined | VMode GameMode | VString string | VNumber int

type_synonym StateContext = "ctxKey \<rightharpoonup> ctxValue"

record StateMachine =
  state :: GameState
  ctx :: StateContext

definition createStateMachine :: "GameState \<Rightarrow> StateMachine" where
  "createStateMachine initial = \<lparr> state = initial, ctx = Map.empty \<rparr>"

text \<open>\<open>Object.assign(ctx, partial)\<close> copies every own property of \<open>partial\<close> onto \<open>ctx\<close>.\<close>

definition objectAssign :: "StateContext \<Rightarrow> StateContext \<Rightarrow> StateContext" where
  "objectAssign target source = target ++ source"

definition transition :: "GameState \<Rightarrow> StateContext option \<Rightarrow> StateMachine \<Rightarrow> StateMachine" where
  "transition next partial m =
     (let m1 = m\<lparr> state := next \<rparr>
      in case partial of
           None \<Rightarrow> m1
         | Some p \<Rightarrow> m1\<lparr> ctx := objectAssign (ctx m1) p \<rparr>)"

section \<open>Board data (src/api/types.ts) and layout (src/game/phaser-board.tsx)\<close>

text \<open>
  Symbols are strings and a grid is an array of rows.  JavaScript numbers that carry pixel
  sizes are reals; array lengths and loop bounds are naturals; coordinates that arrive in
  an outcome are integers, so that an out-of-range (also negative) coordinate is a value.
\<close>

type_synonym grid = "string list list"

record GridSize =
  rows :: nat
  cols :: nat

record CellRef =
  row :: int
  col :: int

record DropIn =
  dropCol :: int
  symbols :: "string list"

record BonusData =
  bonusMode :: GameMode
  triggerCount :: int
  triggerCells :: "CellRef list option"
  prizeMultipliers :: "int list"
  endCode :: string
  maxRounds :: int

record CascadeStep =
  removeCells :: "CellRef list"
  dropIn :: "DropIn list"
  winStep :: int
  gridAfter :: "grid option"
  bonus :: bool
  bonusData :: "BonusData option"

record PlayOutcome =
  playId :: string
  mode :: GameMode
  bet :: int
  grid0 :: grid
  cascades :: "CascadeStep list"
  totalWin :: int

record BoardMetrics =
  cellSize :: real
  gap :: real
  offsetY :: real
  padding :: real
  width :: real
  height :: real
  mrows :: nat
  mcols :: nat

definition LEVEL_ONE_PREVIEW_SIZE :: GridSize where
  "LEVEL_ONE_PREVIEW_SIZE = \<lparr> rows = 3, cols = 5 \<rparr>"

definition LEVEL_TWO_PREVIEW_SIZE :: GridSize where
  "LEVEL_TWO_PREVIEW_SIZE = \<lparr> rows = 7, cols = 5 \<rparr>"

text \<open>
  \<open>pickBoardSize\<close>: the shape of \<open>grid0\<close> when it has a first row with an entry, else the
  rounded preview size when both its numbers are truthy, else the shape of the level.
  \<open>Math.round x\<close> is \<open>floor (x + 1/2)\<close>, which is \<^const>\<open>round\<close>.
\<close>

definition pickBoardSize ::
  "PlayOutcome option \<Rightarrow> GameMode option \<Rightarrow> (real \<times> real) option \<Rightarrow> GridSize" where
  "pickBoardSize play md previewSize =
     (case (case play of
              None \<Rightarrow> None
            | Some p \<Rightarrow>
                (case grid0 p of
                   [] \<Rightarrow> None
                 | r0 # _ \<Rightarrow> if length r0 \<noteq> 0
                            then Some \<lparr> rows = length (grid0 p), cols = length r0 \<rparr>
                            else None)) of
        Some sz \<Rightarrow> sz
      | None \<Rightarrow>
          (case (case previewSize of
                   None \<Rightarrow> None
                 | Some (pr, pc) \<Rightarrow>
                     if pr \<noteq> 0 \<and> pc \<noteq> 0
                     then Some \<lparr> rows = nat (max 1 (round pr)), cols = nat (max 1 (round pc)) \<rparr>
                     else None) of
             Some sz \<Rightarrow> sz
           | None \<Rightarrow> if md = Some nivel1 then LEVEL_ONE_PREVIEW_SIZE
                     else LEVEL_TWO_PREVIEW_SIZE))"

definition computeMetrics ::
  "PlayOutcome option \<Rightarrow> real \<Rightarrow> real option \<Rightarrow> GameMode option \<Rightarrow> (real \<times> real) option
     \<Rightarrow> BoardMetrics" where
  "computeMetrics play containerWidth containerHeight md previewSize =
     (let bsize = pickBoardSize play md previewSize;
          nrows = max 1 (rows bsize);
          ncols = max 1 (cols bsize);
          safeWidth = (if containerWidth > 0 then containerWidth else 640);
          safeHeight = (case containerHeight of
                          None \<Rightarrow> 640
                        | Some h \<Rightarrow> if h \<noteq> 0 \<and> h > 0 then h else 640);
          pad = (if safeWidth \<ge> 640 then 12 else 8);
          gp = 2;
          offY = 32;
          usableByWidth = max 120 (safeWidth - pad * 2 - gp * (real ncols - 1));
          usableByHeight = max 120 (safeHeight - offY - pad * 2 - gp * (real nrows - 1));
          rawCellByWidth = (if ncols > 0 then usableByWidth / real ncols else 70);
          rawCellByHeight = (if nrows > 0 then usableByHeight / real nrows else 70);
          rawCell = min rawCellByWidth rawCellByHeight;
          cell = min 72 (max 20 rawCell);
          w = pad * 2 + real ncols * cell + gp * (real ncols - 1);
          h = offY + real nrows * cell + gp * (real nrows - 1) + pad
      in \<lparr> cellSize = cell, gap = gp, offsetY = offY, padding = pad,
           width = w, height = h, mrows = nrows, mcols = ncols \<rparr>)"

text \<open>
  \<open>getBoardOffsets\<close> centres the board in the canvas (never above \<open>offsetY\<close>) and
  \<open>getCellPosition\<close> places the top-left corner of a cell from those offsets.
\<close>

definition getBoardOffsets :: "BoardMetrics \<Rightarrow> GridSize \<Rightarrow> real \<Rightarrow> real \<Rightarrow> int \<times> int" where
  "getBoardOffsets m bs canvasWidth canvasHeight =
     (let totalGridWidth = real (cols bs) * cellSize m + (real (cols bs) - 1) * gap m;
          totalGridHeight = real (rows bs) * cellSize m + (real (rows bs) - 1) * gap m;
          offsetX = round ((canvasWidth - totalGridWidth) / 2);
          centeredY = round ((canvasHeight - totalGridHeight) / 2);
          finalOffsetY = max (real_of_int centeredY) (offsetY m)
      in (offsetX, round finalOffsetY))"

definition getCellPosition :: "BoardMetrics \<Rightarrow> int \<times> int \<Rightarrow> nat \<Rightarrow> nat \<Rightarrow> real \<times> real" where
  "getCellPosition m offsets r c =
     (real_of_int (fst offsets) + real c * (cellSize m + gap m),
      real_of_int (snd offsets) + real r * (cellSize m + gap m))"

section \<open>Grid access and normalisation\<close>

text \<open>
  Reading a JavaScript array outside its range gives \<open>undefined\<close>; \<open>arr\<close> is that read,
  and \<open>cellAt\<close> is the chained read \<open>grid?.[r]?.[c]\<close>.
\<close>

definition arr :: "'a list \<Rightarrow> int \<Rightarrow> 'a option" where
  "arr xs i = (if 0 \<le> i \<and> i < int (length xs) then Some (xs ! nat i) else None)"

definition cellAt :: "grid \<Rightarrow> int \<Rightarrow> int \<Rightarrow> string option" where
  "cellAt g r c = (case arr g r of None \<Rightarrow> None | Some rw \<Rightarrow> arr rw c)"

definition normalizeGrid :: "grid \<Rightarrow> nat \<Rightarrow> nat \<Rightarrow> grid" where
  "normalizeGrid g nrows ncols =
     map (\<lambda>r. map (\<lambda>c. case cellAt g (int r) (int c) of Some v \<Rightarrow> v | None \<Rightarrow> '''')
                 [0..<ncols])
         [0..<nrows]"

section \<open>Bonus trigger highlight: which cells are picked\<close>

definition BONUS_TRIGGER_SYMBOL :: string where
  "BONUS_TRIGGER_SYMBOL = ''N''"

definition BONUS_HIGHLIGHT_LIMIT :: int where
  "BONUS_HIGHLIGHT_LIMIT = 3"

text \<open>
  \<open>requestedCount\<close> is \<open>Math.max(1, Math.min(LIMIT, triggerCount || LIMIT))\<close>: a zero
  count is falsy and falls back to the limit.
\<close>

definition requestedCount :: "int \<Rightarrow> nat" where
  "requestedCount tc =
     nat (max 1 (min BONUS_HIGHLIGHT_LIMIT (if tc = 0 then BONUS_HIGHLIGHT_LIMIT else tc)))"

text \<open>
  One turn of the \<open>forEach\<close> over \<open>triggerCells\<close>: a cell is skipped when it is out of
  bounds, when the grid does not hold the trigger symbol there, or when its key is already
  in \<open>explicitKeys\<close> (the keys of the targets collected so far); otherwise it is pushed.
\<close>

definition explicitStep :: "grid \<Rightarrow> GridSize \<Rightarrow> CellRef list \<Rightarrow> CellRef \<Rightarrow> CellRef list" where
  "explicitStep g bs targets cell =
     (if row cell < 0 \<or> col cell < 0 then targets
      else if row cell \<ge> int (rows bs) \<or> col cell \<ge> int (cols bs) then targets
      else if cellAt g (row cell) (col cell) \<noteq> Some BONUS_TRIGGER_SYMBOL then targets
      else if (row cell, col cell) \<in> set (map (\<lambda>t. (row t, col t)) targets) then targets
      else targets @ [\<lparr> row = row cell, col = col cell \<rparr>])"

definition explicitTargets :: "grid \<Rightarrow> GridSize \<Rightarrow> CellRef list option \<Rightarrow> CellRef list" where
  "explicitTargets g bs cells =
     foldl (explicitStep g bs) [] (case cells of None \<Rightarrow> [] | Some cs \<Rightarrow> cs)"

definition fallbackTargets :: "grid \<Rightarrow> GridSize \<Rightarrow> CellRef list" where
  "fallbackTargets g bs =
     concat (map (\<lambda>r. concat (map (\<lambda>c.
                 if cellAt g (int r) (int c) = Some BONUS_TRIGGER_SYMBOL
                 then [\<lparr> row = int r, col = int c \<rparr>] else [])
               [0..<cols bs]))
             [0..<rows bs])"

definition highlightTargets ::
  "grid \<Rightarrow> GridSize \<Rightarrow> int \<Rightarrow> CellRef list option \<Rightarrow> CellRef list" where
  "highlightTargets g bs tc cells =
     (let n = requestedCount tc;
          explicit = take n (explicitTargets g bs cells)
      in if length explicit = 0
         then (let fallback = fallbackTargets g bs
               in take (min n (length fallback)) fallback)
         else explicit)"

text \<open>
  The count that \<open>animateStep\<close> passes on:
  \<open>Math.max(1, Math.min(LIMIT, step.bonusData?.triggerCount ?? LIMIT))\<close>.
\<close>

definition stepTriggerCount :: "CascadeStep \<Rightarrow> int" where
  "stepTriggerCount step =
     max 1 (min BONUS_HIGHLIGHT_LIMIT
              (case bonusData step of None \<Rightarrow> BONUS_HIGHLIGHT_LIMIT | Some bd \<Rightarrow> triggerCount bd))"

definition stepTriggerCells :: "CascadeStep \<Rightarrow> CellRef list option" where
  "stepTriggerCells step = (case bonusData step of None \<Rightarrow> None | Some bd \<Rightarrow> triggerCells bd)"




section \<open>The board scene\<close>

text \<open>
  \<open>BoardScene\<close> as a record of its fields together with what it reaches through its
  collaborators: the Phaser clock (\<open>now\<close>, \<open>timers\<close>), the game bus (\<open>emitted\<close>, the
  notifications in emission order), the getters handed to \<open>createBoardScene\<close>
  (\<open>previewMode\<close>, \<open>previewSize\<close>, \<open>fillMode\<close>) and \<open>Math.random\<close> (\<open>rnd\<close>, an
  arbitrary sequence of draws, read at \<open>rndPos\<close>).

  A cell container is kept with the data the code stores on it: the symbol it shows and
  its \<open>row\<close> and \<open>col\<close>.  \<open>cellMap\<close> is a JavaScript \<open>Map\<close>, which keeps insertion
  order: an association list updated in place or extended at the end.  Tweens, particles
  and graphics objects only change how containers look; of the visual layer the record
  keeps the symbol each container shows, the reel strips and a log of the effects started.

  The queue \<open>timers\<close> holds the delayed calls of the step sequence.  Delayed calls that
  only clean up display objects are not represented, and the timers of the reel intro are
  modelled with the reel further down: none of them reads or writes \<open>grid\<close>,
  \<open>currentPlay\<close>, \<open>accumulatedWin\<close> or the game bus.
\<close>

datatype error = TypeError

datatype FillMode = Replace | Cascade | Rodillo

datatype event =
    CascadeStepEvent string nat nat
  | WinIncrement string int
  | BonusTriggered string "BonusData option"
  | CascadeCompleted string nat

text \<open>
  The closures handed to the clock.  \<open>NextStep play idx\<close> is the \<open>onComplete\<close> that
  \<open>runStep\<close> passes to \<open>animateStep\<close>: it schedules \<open>runStep (idx + 1)\<close> after 250 ms.
\<close>

datatype callback = NextStep PlayOutcome nat

datatype task =
    RunStep PlayOutcome nat
  | StartRemoval CascadeStep nat nat callback
  | ApplyRefill CascadeStep nat nat callback
  | BonusDone CascadeStep callback
  | Invoke callback

record Container =
  shown :: "string option"
  dataRow :: int
  dataCol :: int

type_synonym cellmap = "((int \<times> int) \<times> Container) list"

datatype effect =
    Explosion int int string "(nat \<times> nat) list"
  | Highlight "CellRef list"

record ColumnState =
  stCol :: nat
  stCells :: "(int \<times> int) list"
  strip :: "string list"
  stripCursor :: nat
  spinning :: bool
  completed :: nat

record Reel =
  columnStates :: "ColumnState list"
  lastColumnSpinSteps :: nat
  stopSequenceScheduled :: bool
  requiredLastColumnSteps :: nat
  reelCols :: nat
  pendingStops :: "(nat \<times> nat) list"
  stopped :: "nat list"

record Scene =
  cellMap :: cellmap
  grid :: "grid option"
  boardSize :: GridSize
  currentPlay :: "PlayOutcome option"
  accumulatedWin :: int
  now :: nat
  timers :: "(nat \<times> task) list"
  emitted :: "event list"
  effects :: "effect list"
  reel :: "Reel option"
  previewMode :: "GameMode option"
  previewSize :: "(real \<times> real) option"
  fillMode :: "FillMode option"
  rnd :: "nat \<Rightarrow> nat"
  rndPos :: nat

definition mapSet :: "int \<times> int \<Rightarrow> Container \<Rightarrow> cellmap \<Rightarrow> cellmap" where
  "mapSet k v m = AList.update k v m"

definition mapGet :: "cellmap \<Rightarrow> int \<times> int \<Rightarrow> Container option" where
  "mapGet m k = map_of m k"

text \<open>\<open>createCellContainer\<close> followed by the two \<open>setData\<close> calls every caller makes.\<close>

definition newContainer :: "string option \<Rightarrow> int \<Rightarrow> int \<Rightarrow> Container" where
  "newContainer symb r c = \<lparr> shown = symb, dataRow = r, dataCol = c \<rparr>"

definition delayedCall :: "nat \<Rightarrow> task \<Rightarrow> Scene \<Rightarrow> Scene" where
  "delayedCall delay t s = s\<lparr> timers := timers s @ [(now s + delay, t)] \<rparr>"

definition emit :: "event \<Rightarrow> Scene \<Rightarrow> Scene" where
  "emit e s = s\<lparr> emitted := emitted s @ [e] \<rparr>"

text \<open>A \<open>for\<close> loop whose body may throw: the first error ends the loop.\<close>

primrec forE :: "'a list \<Rightarrow> ('a \<Rightarrow> 'b \<Rightarrow> error + 'b) \<Rightarrow> 'b \<Rightarrow> error + 'b" where
  "forE [] body acc = Inr acc"
| "forE (x # xs) body acc =
     (case body x acc of Inl e \<Rightarrow> Inl e | Inr acc' \<Rightarrow> forE xs body acc')"

text \<open>
  \<open>drawGrid\<close> reads \<open>grid[row][col]\<close> from its argument, not from the normalised copy: a
  missing row is a \<open>TypeError\<close>, a missing entry of a row is \<open>undefined\<close>.
\<close>

definition drawGrid :: "grid \<Rightarrow> Scene \<Rightarrow> error + Scene" where
  "drawGrid g s =
     (let nrows = max 1 (rows (boardSize s));
          ncols = max 1 (cols (boardSize s));
          s1 = s\<lparr> cellMap := [],
                  grid := Some (normalizeGrid g nrows ncols),
                  boardSize := \<lparr> rows = nrows, cols = ncols \<rparr> \<rparr>
      in case forE [0..<nrows]
                (\<lambda>r. forE [0..<ncols]
                   (\<lambda>c m. case arr g (int r) of
                             None \<Rightarrow> Inl TypeError
                           | Some rw \<Rightarrow>
                               Inr (mapSet (int r, int c)
                                      (newContainer (arr rw (int c)) (int r) (int c)) m)))
                [] of
           Inl e \<Rightarrow> Inl e
         | Inr m \<Rightarrow> Inr (s1\<lparr> cellMap := m \<rparr>))"

section \<open>Board intro\<close>

text \<open>The fifteen one-letter symbols \<open>A\<close> to \<open>O\<close>.\<close>

definition FALLBACK_STRIP_SYMBOLS :: "string list" where
  "FALLBACK_STRIP_SYMBOLS = map (\<lambda>ch. [ch]) ''ABCDEFGHIJKLMNO''"

text \<open>\<open>symbol.trim().toUpperCase()\<close> on ASCII strings.\<close>

definition isSpaceChar :: "char \<Rightarrow> bool" where
  "isSpaceChar ch = ((of_char ch :: nat) \<in> {9, 10, 11, 12, 13, 32})"

definition trim :: "string \<Rightarrow> string" where
  "trim str = rev (dropWhile isSpaceChar (rev (dropWhile isSpaceChar str)))"

definition toUpperCase :: "string \<Rightarrow> string" where
  "toUpperCase str =
     map (\<lambda>ch. let n = (of_char ch :: nat)
               in if 97 \<le> n \<and> n \<le> 122 then char_of (n - 32) else ch) str"

definition safeSymbol :: "string \<Rightarrow> string" where
  "safeSymbol symb = toUpperCase (trim symb)"

text \<open>Adding to a JavaScript \<open>Set\<close>, which keeps the order of first insertion.\<close>

definition setAdd :: "'a list \<Rightarrow> 'a \<Rightarrow> 'a list" where
  "setAdd acc x = (if x \<in> set acc then acc else acc @ [x])"

text \<open>
  \<open>Math.floor(Math.random() * n)\<close> is an arbitrary index below \<open>n\<close>: the draw taken
  modulo \<open>n\<close>.  \<open>buildStrip\<close> takes one draw per strip entry, starting at \<open>pos\<close>.
\<close>

definition buildStrip :: "(nat \<Rightarrow> nat) \<Rightarrow> nat \<Rightarrow> string list \<Rightarrow> string list" where
  "buildStrip draws pos reelSymbols =
     (let sz = max 28 (length reelSymbols * 4)
      in map (\<lambda>i. case arr reelSymbols (int (draws (pos + i) mod length reelSymbols)) of
                     Some x \<Rightarrow> x
                   | None \<Rightarrow> ''A'')
             [0..<sz])"

definition stripAt :: "string list \<Rightarrow> nat \<Rightarrow> string" where
  "stripAt st i = (case arr st (int (i mod length st)) of Some x \<Rightarrow> x | None \<Rightarrow> ''A'')"

definition initColumn ::
  "(nat \<Rightarrow> nat) \<Rightarrow> nat \<Rightarrow> string list \<Rightarrow> nat \<Rightarrow> cellmap \<Rightarrow> nat \<Rightarrow> ColumnState" where
  "initColumn draws pos reelSymbols nrows entries c =
     (let st = buildStrip draws pos reelSymbols;
          startIndex = draws (pos + length st) mod length st;
          cells = sort_key fst (filter (\<lambda>k. snd k = int c) (map fst entries))
      in \<lparr> stCol = c, stCells = cells, strip = st, stripCursor = startIndex + nrows,
           spinning = False, completed = 0 \<rparr>)"

text \<open>\<open>updateCellContainerSymbol\<close> on the container stored under a key.\<close>

definition updateCellContainerSymbol :: "int \<times> int \<Rightarrow> string \<Rightarrow> cellmap \<Rightarrow> cellmap" where
  "updateCellContainerSymbol k symb m =
     (case mapGet m k of
        None \<Rightarrow> m
      | Some ct \<Rightarrow> mapSet k (ct\<lparr> shown := Some (safeSymbol symb) \<rparr>) m)"

definition showStrip :: "ColumnState \<Rightarrow> cellmap \<Rightarrow> cellmap" where
  "showStrip st m =
     foldl (\<lambda>m' (rowIdx, k).
              updateCellContainerSymbol k (stripAt (strip st) (stripCursor st + rowIdx)) m')
           m (enumerate 0 (stCells st))"

text \<open>
  \<open>playBoardIntro\<close> returns the duration of the entrance animation.  In \<open>rodillo\<close> mode
  it also builds one random strip per column and shows strip symbols on the containers;
  the timers and tweens it starts belong to the reel, modelled below.
\<close>

definition playBoardIntro :: "Scene \<Rightarrow> nat \<times> Scene" where
  "playBoardIntro s =
     (let entries = cellMap s
      in if length entries = 0 then (0, s)
         else if fillMode s = Some Rodillo then
           (let colStartDelay = 320; dropDuration = 280; stopDelay = 220;
                settleDuration = 260; spinTickMs = 90;
                nrows = max 1 (rows (boardSize s));
                ncols = max 1 (cols (boardSize s));
                minTurnsLastColumn = 2;
                required = nrows * minTurnsLastColumn;
                symbolPool = foldl setAdd []
                               (filter (\<lambda>x. x \<noteq> [])
                                  (map safeSymbol
                                     (concat (case grid s of None \<Rightarrow> [] | Some g \<Rightarrow> g))));
                reelSymbols = (if length symbolPool > 0 then symbolPool
                               else FALLBACK_STRIP_SYMBOLS);
                perColumn = max 28 (length reelSymbols * 4) + 1;
                states = map (\<lambda>c. initColumn (rnd s) (rndPos s + c * perColumn)
                                       reelSymbols nrows entries c)
                             [0..<ncols];
                dropPhase = (ncols - 1) * colStartDelay + dropDuration;
                stopPhase = required * spinTickMs + max 0 (ncols - 1) * stopDelay
                            + settleDuration
            in (dropPhase + stopPhase,
                s\<lparr> cellMap := foldl (\<lambda>m st. showStrip st m) entries states,
                   reel := Some \<lparr> columnStates = states, lastColumnSpinSteps = 0,
                                  stopSequenceScheduled = False,
                                  requiredLastColumnSteps = required,
                                  reelCols = ncols,
                                  pendingStops = [], stopped = [] \<rparr>,
                   rndPos := rndPos s + ncols * perColumn \<rparr>))
         else if fillMode s = Some Cascade then
           (let colDelay = 120; dropDuration = 380;
                ncols = max 1 (cols (boardSize s))
            in ((ncols - 1) * colDelay + dropDuration, s))
         else
           (let stepDelay = 40; duration = 260
            in (duration + (length entries - 1) * stepDelay, s)))"

section \<open>Step sequence\<close>

text \<open>\<open>this.currentPlay?.playId\<close> when it is truthy: the id of the current play, unless empty.\<close>

definition currentPlayId :: "Scene \<Rightarrow> string option" where
  "currentPlayId s =
     (case currentPlay s of
        None \<Rightarrow> None
      | Some p \<Rightarrow> if playId p \<noteq> [] then Some (playId p) else None)"

definition invoke :: "callback \<Rightarrow> Scene \<Rightarrow> Scene" where
  "invoke cb s = (case cb of NextStep p idx \<Rightarrow> delayedCall 250 (RunStep p (idx + 1)) s)"

text \<open>The completion handler that \<open>animateStep\<close> gives to the bonus highlight.\<close>

definition bonusDone :: "CascadeStep \<Rightarrow> callback \<Rightarrow> Scene \<Rightarrow> Scene" where
  "bonusDone step cb s =
     invoke cb (case currentPlayId s of
                  Some pid \<Rightarrow> emit (BonusTriggered pid (bonusData step)) s
                | None \<Rightarrow> s)"

definition playBonusTriggerHighlight ::
  "int \<Rightarrow> CellRef list option \<Rightarrow> CascadeStep \<Rightarrow> callback \<Rightarrow> Scene \<Rightarrow> Scene" where
  "playBonusTriggerHighlight tc cells step cb s =
     (case grid s of
        None \<Rightarrow> bonusDone step cb s
      | Some g \<Rightarrow>
          (let targets = highlightTargets g (boardSize s) tc cells
           in if length targets = 0 then bonusDone step cb s
              else (let lit = filter (\<lambda>cell. mapGet (cellMap s) (row cell, col cell) \<noteq> None)
                                     targets;
                        totalDuration = 1280 + max 0 (length targets - 1) * 120
                    in delayedCall totalDuration (BonusDone step cb)
                         (s\<lparr> effects := effects s @ [Highlight lit] \<rparr>))))"

text \<open>
  \<open>playExplosion\<close> draws twice per spark (distance, then duration) for 16 sparks.
\<close>

definition playExplosion :: "int \<Rightarrow> int \<Rightarrow> string \<Rightarrow> Scene \<Rightarrow> Scene" where
  "playExplosion r c symb s =
     s\<lparr> effects := effects s @
           [Explosion r c symb
              (map (\<lambda>idx. (rnd s (rndPos s + 2 * idx), rnd s (rndPos s + 2 * idx + 1)))
                   [0..<16])],
        rndPos := rndPos s + 32 \<rparr>"

text \<open>
  \<open>playMatchContour\<close> draws one segment for every side of a removed cell that has no
  removed neighbour, and returns the time the contour stays: none when nothing is drawn.
\<close>

datatype side = TopSide | BottomSide | LeftSide | RightSide

definition MATCH_CONTOUR_DURATION :: nat where
  "MATCH_CONTOUR_DURATION = 340"

definition contourSegments :: "CellRef list \<Rightarrow> (CellRef \<times> side) list" where
  "contourSegments cells =
     (let cellSet = set (map (\<lambda>cell. (row cell, col cell)) cells)
      in concat (map (\<lambda>cell.
           (if (row cell - 1, col cell) \<notin> cellSet then [(cell, TopSide)] else []) @
           (if (row cell + 1, col cell) \<notin> cellSet then [(cell, BottomSide)] else []) @
           (if (row cell, col cell - 1) \<notin> cellSet then [(cell, LeftSide)] else []) @
           (if (row cell, col cell + 1) \<notin> cellSet then [(cell, RightSide)] else []))
         cells))"

definition playMatchContour :: "CellRef list \<Rightarrow> nat" where
  "playMatchContour cells =
     (if length cells = 0 then 0
      else if length (contourSegments cells) = 0 then 0
      else MATCH_CONTOUR_DURATION)"

definition removeSetOf :: "CascadeStep \<Rightarrow> (int \<times> int) set" where
  "removeSetOf step = set (map (\<lambda>cell. (row cell, col cell)) (removeCells step))"

text \<open>
  The replace fill: a cell that is not removed keeps its container, every other cell gets
  a new container showing \<open>this.grid[row][col]\<close>.
\<close>

definition replaceFill ::
  "grid \<Rightarrow> (int \<times> int) set \<Rightarrow> cellmap \<Rightarrow> nat \<Rightarrow> nat \<Rightarrow> error + cellmap" where
  "replaceFill g removeSet old nrows ncols =
     forE [0..<nrows]
       (\<lambda>r. forE [0..<ncols]
          (\<lambda>c newMap.
             let k = (int r, int c)
             in case (if k \<notin> removeSet then mapGet old k else None) of
                  Some existing \<Rightarrow>
                    Inr (mapSet k (existing\<lparr> dataRow := int r, dataCol := int c \<rparr>) newMap)
                | None \<Rightarrow>
                    (case arr g (int r) of
                       None \<Rightarrow> Inl TypeError
                     | Some rw \<Rightarrow>
                         Inr (mapSet k (newContainer (arr rw (int c)) (int r) (int c)) newMap))))
       []"

text \<open>
  The gravity fill of one column: the surviving containers, bottom row first, take the
  rows from the bottom up; the incoming symbols of the first \<open>dropIn\<close> entry for the
  column, last symbol first, take the rows above them.
\<close>

definition cascadeColumn ::
  "(int \<times> int) set \<Rightarrow> DropIn list \<Rightarrow> cellmap \<Rightarrow> nat \<Rightarrow> cellmap \<Rightarrow> nat \<Rightarrow> cellmap" where
  "cascadeColumn removeSet drops old nrows newMap c =
     (let survivors =
            List.map_filter
              (\<lambda>r. if (int r, int c) \<in> removeSet then None else mapGet old (int r, int c))
              (rev [0..<nrows]);
          placed =
            foldl (\<lambda>(writeRow, m) ct.
                     (writeRow - 1,
                      mapSet (writeRow, int c) (ct\<lparr> dataRow := writeRow, dataCol := int c \<rparr>) m))
                  (int nrows - 1, newMap) survivors;
          dropSymbols =
            (case find (\<lambda>d. dropCol d = int c) drops of
               None \<Rightarrow> []
             | Some d \<Rightarrow> symbols d);
          filled =
            foldl (\<lambda>(writeRow, m) symb.
                     (writeRow - 1,
                      mapSet (writeRow, int c) (newContainer (Some symb) writeRow (int c)) m))
                  placed (rev dropSymbols)
      in snd filled)"

definition cascadeFill ::
  "(int \<times> int) set \<Rightarrow> DropIn list \<Rightarrow> cellmap \<Rightarrow> nat \<Rightarrow> nat \<Rightarrow> cellmap" where
  "cascadeFill removeSet drops old nrows ncols =
     foldl (cascadeColumn removeSet drops old nrows) [] [0..<ncols]"

text \<open>The delayed call that \<open>startRemoval\<close> schedules: the mutation and refill phase.\<close>

definition applyRefill :: "CascadeStep \<Rightarrow> nat \<Rightarrow> nat \<Rightarrow> callback \<Rightarrow> Scene \<Rightarrow> error + Scene" where
  "applyRefill step stepIndex totalSteps cb s =
     (case grid s of
        None \<Rightarrow> Inr (invoke cb s)
      | Some g \<Rightarrow>
          (let nrows = rows (boardSize s);
               ncols = cols (boardSize s);
               nextGrid = (case gridAfter step of Some ga \<Rightarrow> ga | None \<Rightarrow> g);
               g' = normalizeGrid nextGrid nrows ncols;
               s1 = s\<lparr> grid := Some g' \<rparr>
           in if fillMode s = Some Replace then
                (let appearDuration = 280
                 in case replaceFill g' (removeSetOf step) (cellMap s1) nrows ncols of
                      Inl e \<Rightarrow> Inl e
                    | Inr newMap \<Rightarrow>
                        Inr (delayedCall (appearDuration + 120) (Invoke cb)
                               (s1\<lparr> cellMap := newMap \<rparr>)))
              else
                (let dropDuration = 480;
                     newMap = cascadeFill (removeSetOf step) (dropIn step) (cellMap s1) nrows ncols
                 in Inr (delayedCall (dropDuration + 120) (Invoke cb)
                           (s1\<lparr> cellMap := newMap \<rparr>)))))"

definition startRemoval :: "CascadeStep \<Rightarrow> nat \<Rightarrow> nat \<Rightarrow> callback \<Rightarrow> Scene \<Rightarrow> Scene" where
  "startRemoval step stepIndex totalSteps cb s =
     (let stepWin = winStep step;
          removalDuration = 520;
          s1 = foldl (\<lambda>s' cell.
                        playExplosion (row cell) (col cell)
                          (case (case grid s' of
                                   None \<Rightarrow> None
                                 | Some g \<Rightarrow> cellAt g (row cell) (col cell)) of
                             Some v \<Rightarrow> v
                           | None \<Rightarrow> '''')
                          s')
                     s (removeCells step);
          s2 = (case currentPlayId s1 of
                  Some pid \<Rightarrow>
                    if stepWin > 0
                    then emit (WinIncrement pid stepWin)
                           (s1\<lparr> accumulatedWin := accumulatedWin s1 + stepWin \<rparr>)
                    else s1
                | None \<Rightarrow> s1);
          applyDelay = removalDuration + 160
      in delayedCall applyDelay (ApplyRefill step stepIndex totalSteps cb) s2)"

definition animateStep :: "CascadeStep \<Rightarrow> nat \<Rightarrow> nat \<Rightarrow> callback \<Rightarrow> Scene \<Rightarrow> Scene" where
  "animateStep step stepIndex totalSteps cb s =
     (case grid s of
        None \<Rightarrow> invoke cb s
      | Some g \<Rightarrow>
          (let s1 = (case currentPlayId s of
                       Some pid \<Rightarrow> emit (CascadeStepEvent pid (stepIndex + 1) totalSteps) s
                     | None \<Rightarrow> s)
           in if bonus step
              then playBonusTriggerHighlight (stepTriggerCount step) (stepTriggerCells step)
                     step cb s1
              else (let contourDelay = playMatchContour (removeCells step)
                    in if contourDelay > 0
                       then delayedCall contourDelay
                              (StartRemoval step stepIndex totalSteps cb) s1
                       else startRemoval step stepIndex totalSteps cb s1)))"

definition runStep :: "PlayOutcome \<Rightarrow> nat \<Rightarrow> Scene \<Rightarrow> Scene" where
  "runStep play idx s =
     (case grid s of
        None \<Rightarrow> s
      | Some g \<Rightarrow>
          if idx \<ge> length (cascades play)
          then emit (CascadeCompleted (playId play) (length (cascades play))) s
          else animateStep (cascades play ! idx) idx (length (cascades play))
                 (NextStep play idx) s)"

definition renderPlay :: "PlayOutcome \<Rightarrow> Scene \<Rightarrow> error + Scene" where
  "renderPlay play s =
     (let s1 = s\<lparr> timers := [], currentPlay := Some play, accumulatedWin := 0 \<rparr>;
          bsize = pickBoardSize (Some play) (previewMode s1) (previewSize s1);
          s2 = s1\<lparr> boardSize := \<lparr> rows = max 1 (rows bsize), cols = max 1 (cols bsize) \<rparr> \<rparr>;
          g = normalizeGrid (grid0 play) (rows (boardSize s2)) (cols (boardSize s2));
          s3 = s2\<lparr> grid := Some g \<rparr>
      in case drawGrid g s3 of
           Inl e \<Rightarrow> Inl e
         | Inr s4 \<Rightarrow>
             (let (introDuration, s5) = playBoardIntro s4;
                  initialDelay = max 320 (introDuration + 120)
              in Inr (delayedCall initialDelay (RunStep play 0) s5)))"


section \<open>The clock\<close>

text \<open>
  A delayed call fires once its delay has elapsed.  \<open>popNext\<close> takes the pending call
  that is due first, the one scheduled earlier among calls due together.
\<close>

fun popNext :: "(nat \<times> 'a) list \<Rightarrow> ((nat \<times> 'a) \<times> (nat \<times> 'a) list) option" where
  "popNext [] = None"
| "popNext (x # xs) =
     (case popNext xs of
        None \<Rightarrow> Some (x, [])
      | Some (y, rest) \<Rightarrow> if fst x \<le> fst y then Some (x, xs) else Some (y, x # rest))"

definition fire :: "task \<Rightarrow> Scene \<Rightarrow> error + Scene" where
  "fire t s =
     (case t of
        RunStep play idx \<Rightarrow> Inr (runStep play idx s)
      | StartRemoval step stepIndex totalSteps cb \<Rightarrow>
          Inr (startRemoval step stepIndex totalSteps cb s)
      | ApplyRefill step stepIndex totalSteps cb \<Rightarrow> applyRefill step stepIndex totalSteps cb s
      | BonusDone step cb \<Rightarrow> Inr (bonusDone step cb s)
      | Invoke cb \<Rightarrow> Inr (invoke cb s))"

text \<open>
  The work a pending call still stands for, counted in calls: it bounds how often the
  clock can fire and so shows that \<open>run\<close> below ends.
\<close>

definition callbackWork :: "callback \<Rightarrow> nat" where
  "callbackWork cb = (case cb of NextStep p idx \<Rightarrow> 5 * (length (cascades p) - (idx + 1)) + 2)"

definition taskWork :: "task \<Rightarrow> nat" where
  "taskWork t =
     (case t of
        RunStep p idx \<Rightarrow> 5 * (length (cascades p) - idx) + 1
      | StartRemoval step stepIndex totalSteps cb \<Rightarrow> callbackWork cb + 3
      | ApplyRefill step stepIndex totalSteps cb \<Rightarrow> callbackWork cb + 2
      | BonusDone step cb \<Rightarrow> callbackWork cb + 1
      | Invoke cb \<Rightarrow> callbackWork cb)"

definition pendingWork :: "Scene \<Rightarrow> nat" where
  "pendingWork s = sum_list (map (\<lambda>(due, t). taskWork t) (timers s))"

text \<open>Firing a call leaves strictly less pending work.\<close>

lemma pendingWork_delayedCall [simp]:
  "pendingWork (delayedCall d t s) = pendingWork s + taskWork t"
  by (simp add: pendingWork_def delayedCall_def)

lemma pendingWork_emit [simp]: "pendingWork (emit e s) = pendingWork s"
  by (simp add: pendingWork_def emit_def)

lemma pendingWork_playExplosion [simp]: "pendingWork (playExplosion r c symb s) = pendingWork s"
  by (simp add: pendingWork_def playExplosion_def)

lemma pendingWork_explosions [simp]:
  "pendingWork (foldl (\<lambda>s' cell. playExplosion (f cell) (g cell) (h s' cell) s') s cells) = pendingWork s"
  by (induction cells arbitrary: s) simp_all

lemma pendingWork_invoke: "pendingWork (invoke cb s) + 1 = pendingWork s + callbackWork cb"
  by (cases cb) (simp add: invoke_def callbackWork_def taskWork_def)

lemma pendingWork_bonusDone: "pendingWork (bonusDone step cb s) + 1 = pendingWork s + callbackWork cb"
proof (cases "currentPlayId s")
  case None
  then show ?thesis using pendingWork_invoke[of cb s] by (simp add: bonusDone_def)
next
  case (Some pid)
  then show ?thesis
    using pendingWork_invoke[of cb "emit (BonusTriggered pid (bonusData step)) s"]
    by (simp add: bonusDone_def)
qed

lemma pendingWork_playBonus:
  "pendingWork (playBonusTriggerHighlight tc cells step cb s) \<le> pendingWork s + callbackWork cb + 1"
proof -
  have a: "pendingWork (bonusDone step cb s) \<le> pendingWork s + callbackWork cb + 1"
    using pendingWork_bonusDone[of step cb s] by linarith
  have b: "pendingWork (s\<lparr>effects := x\<rparr>) = pendingWork s" for x
    by (simp add: pendingWork_def)
  show ?thesis
    using a by (simp add: playBonusTriggerHighlight_def Let_def b taskWork_def split: option.splits)
qed

lemma pendingWork_startRemoval:
  "pendingWork (startRemoval step i n cb s) = pendingWork s + callbackWork cb + 2"
proof -
  have b: "pendingWork (s'\<lparr>accumulatedWin := x\<rparr>) = pendingWork s'" for x s'
    by (simp add: pendingWork_def)
  show ?thesis
    by (simp add: startRemoval_def Let_def b taskWork_def split: option.splits)
qed

lemma pendingWork_applyRefill:
  assumes "applyRefill step i n cb s = Inr s'"
  shows "pendingWork s' \<le> pendingWork s + callbackWork cb"
proof -
  have b: "pendingWork (s0\<lparr>grid := x\<rparr>) = pendingWork s0"
          "pendingWork (s0\<lparr>cellMap := y\<rparr>) = pendingWork s0" for x y s0
    by (simp_all add: pendingWork_def)
  have c: "pendingWork (invoke cb s) \<le> pendingWork s + callbackWork cb"
    using pendingWork_invoke[of cb s] by linarith
  show ?thesis
    using assms c
    by (auto simp: applyRefill_def Let_def b taskWork_def split: option.splits if_splits sum.splits)
qed

lemma pendingWork_animateStep:
  "pendingWork (animateStep step i n cb s) \<le> pendingWork s + callbackWork cb + 3"
proof -
  have c: "pendingWork (invoke cb s) \<le> pendingWork s + callbackWork cb + 3"
    using pendingWork_invoke[of cb s] by linarith
  have d: "pendingWork (playBonusTriggerHighlight tc cells step cb (emit e s)) \<le> pendingWork s + callbackWork cb + 3"
          "pendingWork (playBonusTriggerHighlight tc cells step cb s) \<le> pendingWork s + callbackWork cb + 3"
    for tc cells e
    using pendingWork_playBonus[of tc cells step cb "emit e s"]
          pendingWork_playBonus[of tc cells step cb s] by simp_all
  show ?thesis
    using c d
    by (simp add: animateStep_def Let_def pendingWork_startRemoval taskWork_def split: option.splits)
qed

lemma pendingWork_runStep:
  "pendingWork (runStep p idx s) < pendingWork s + taskWork (RunStep p idx)"
proof (cases "grid s = None \<or> idx \<ge> length (cascades p)")
  case True
  then show ?thesis
    by (auto simp: runStep_def taskWork_def split: option.splits)
next
  case False
  then obtain g where g: "grid s = Some g" and lt: "idx < length (cascades p)" by auto
  have "pendingWork (runStep p idx s) \<le> pendingWork s + callbackWork (NextStep p idx) + 3"
    using pendingWork_animateStep[of "cascades p ! idx" idx "length (cascades p)" "NextStep p idx" s] g lt
    by (simp add: runStep_def)
  moreover have "callbackWork (NextStep p idx) + 3 < taskWork (RunStep p idx)"
    using lt by (simp add: callbackWork_def taskWork_def)
  ultimately show ?thesis by linarith
qed

lemma fire_work:
  assumes "fire t s = Inr s'"
  shows "pendingWork s' < pendingWork s + taskWork t"
proof (cases t)
  case (RunStep p idx)
  then show ?thesis using assms pendingWork_runStep[of p idx s] by (simp add: fire_def)
next
  case (StartRemoval step i n cb)
  then show ?thesis using assms by (auto simp: fire_def pendingWork_startRemoval taskWork_def)
next
  case (ApplyRefill step i n cb)
  then show ?thesis using assms pendingWork_applyRefill[of step i n cb s s']
    by (simp add: fire_def taskWork_def)
next
  case (BonusDone step cb)
  then show ?thesis using assms pendingWork_bonusDone[of step cb s]
    by (auto simp: fire_def taskWork_def)
next
  case (Invoke cb)
  have "0 < callbackWork cb" by (cases cb) (simp add: callbackWork_def)
  then show ?thesis using Invoke assms pendingWork_invoke[of cb s]
    by (auto simp: fire_def taskWork_def)
qed

lemma popNext_None: "popNext ts = None \<longleftrightarrow> ts = []"
  by (cases ts) (auto split: option.splits)

lemma popNext_work:
  "popNext ts = Some ((due, t), rest) \<Longrightarrow>
     sum_list (map (\<lambda>(d, t'). taskWork t') ts) = taskWork t + sum_list (map (\<lambda>(d, t'). taskWork t') rest)"
  by (induction ts arbitrary: due t rest) (auto simp: popNext_None split: option.splits if_splits)

text \<open>
  \<open>run\<close> lets the clock fire the pending calls in due order until none is left.  A
  \<open>TypeError\<close> thrown by a callback ends the run.
\<close>

function run :: "Scene \<Rightarrow> error + Scene" where
  "run s =
     (case popNext (timers s) of
        None \<Rightarrow> Inr s
      | Some ((due, t), rest) \<Rightarrow>
          (case fire t (s\<lparr> now := max (now s) due, timers := rest \<rparr>) of
             Inl e \<Rightarrow> Inl e
           | Inr s' \<Rightarrow> run s'))"
  by pat_completeness auto
termination
proof (relation "measure pendingWork")
  show "wf (measure pendingWork)" by simp
next
  fix s x2 x y due t s'
  assume p: "popNext (timers s) = Some x2" "(x, y) = x2" "(due, t) = x"
     and f: "fire t (s\<lparr>now := max (now s) due, timers := y\<rparr>) = Inr s'"
  have pn: "popNext (timers s) = Some ((due, t), y)" using p by simp
  have "pendingWork s = taskWork t + pendingWork (s\<lparr>now := max (now s) due, timers := y\<rparr>)"
    using popNext_work[OF pn] by (simp add: pendingWork_def)
  then show "(s', s) \<in> measure pendingWork"
    using fire_work[OF f] by simp
qed

declare run.simps [simp del]

section \<open>Submitting an outcome\<close>

definition andThen :: "error + 'a \<Rightarrow> ('a \<Rightarrow> error + 'b) \<Rightarrow> error + 'b" where
  "andThen r f = (case r of Inl e \<Rightarrow> Inl e | Inr x \<Rightarrow> f x)"

text \<open>\<open>render-play\<close> followed by the clock running until no call is pending.\<close>

definition playToEnd :: "PlayOutcome \<Rightarrow> Scene \<Rightarrow> error + Scene" where
  "playToEnd play s = andThen (renderPlay play s) run"

text \<open>The scene as its field initialisers leave it, before \<open>create\<close> runs.\<close>

definition newScene ::
  "GameMode option \<Rightarrow> (real \<times> real) option \<Rightarrow> FillMode option \<Rightarrow> (nat \<Rightarrow> nat) \<Rightarrow> Scene" where
  "newScene md pv fm draws =
     \<lparr> cellMap = [], grid = None, boardSize = pickBoardSize None md pv,
       currentPlay = None, accumulatedWin = 0, now = 0, timers = [], emitted = [],
       effects = [], reel = None, previewMode = md, previewSize = pv, fillMode = fm,
       rnd = draws, rndPos = 0 \<rparr>"

section \<open>The notifications of an outcome in closed form\<close>

text \<open>
  What one step puts on the game bus, read off \<open>animateStep\<close>, \<open>startRemoval\<close> and the
  bonus completion handler: the step notification with the 1-based step number, then the
  bonus notification for a bonus step or the win notification for a step with a positive
  win; all of them only when the play id is non-empty.  \<open>stepCredit\<close> is what the step adds
  to \<open>accumulatedWin\<close>.
\<close>

definition stepNotifications :: "string \<Rightarrow> nat \<Rightarrow> nat \<Rightarrow> CascadeStep \<Rightarrow> event list" where
  "stepNotifications pid n i step =
     (if pid \<noteq> [] then [CascadeStepEvent pid (i + 1) n] else []) @
     (if bonus step
      then (if pid \<noteq> [] then [BonusTriggered pid (bonusData step)] else [])
      else (if pid \<noteq> [] \<and> winStep step > 0 then [WinIncrement pid (winStep step)] else []))"

definition stepCredit :: "string \<Rightarrow> CascadeStep \<Rightarrow> int" where
  "stepCredit pid step =
     (if \<not> bonus step \<and> pid \<noteq> [] \<and> winStep step > 0 then winStep step else 0)"

definition tailNotifications :: "PlayOutcome \<Rightarrow> nat \<Rightarrow> event list" where
  "tailNotifications p idx =
     concat (map (\<lambda>i. stepNotifications (playId p) (length (cascades p)) i (cascades p ! i))
                 [idx..<length (cascades p)])
     @ [CascadeCompleted (playId p) (length (cascades p))]"

definition tailCredit :: "PlayOutcome \<Rightarrow> nat \<Rightarrow> int" where
  "tailCredit p idx =
     sum_list (map (\<lambda>i. stepCredit (playId p) (cascades p ! i)) [idx..<length (cascades p)])"

definition isCascadeStep :: "event \<Rightarrow> bool" where
  "isCascadeStep e = (case e of CascadeStepEvent pid i n \<Rightarrow> True | _ \<Rightarrow> False)"

definition isCascadeCompleted :: "event \<Rightarrow> bool" where
  "isCascadeCompleted e = (case e of CascadeCompleted pid n \<Rightarrow> True | _ \<Rightarrow> False)"

definition isWinIncrement :: "event \<Rightarrow> bool" where
  "isWinIncrement e = (case e of WinIncrement pid a \<Rightarrow> True | _ \<Rightarrow> False)"

definition winAmount :: "event \<Rightarrow> int" where
  "winAmount e = (case e of WinIncrement pid a \<Rightarrow> a | _ \<Rightarrow> 0)"

text \<open>\<open>pending p t s\<close>: the call \<open>t\<close> is the only one pending while \<open>p\<close> is being played.\<close>

definition pending :: "PlayOutcome \<Rightarrow> task \<Rightarrow> Scene \<Rightarrow> bool" where
  "pending p t s \<longleftrightarrow> (\<exists>d. timers s = [(d, t)]) \<and> currentPlay s = Some p \<and> grid s \<noteq> None"

section \<open>Example data\<close>

text \<open>The outcome of the worked example: a 3 by 5 board and two match steps with wins 10 and 25.\<close>

definition exampleStep :: "CellRef list \<Rightarrow> int \<Rightarrow> grid \<Rightarrow> CascadeStep" where
  "exampleStep cells win after =
     \<lparr> removeCells = cells, dropIn = [], winStep = win, gridAfter = Some after,
       bonus = False, bonusData = None \<rparr>"

definition examplePlay :: PlayOutcome where
  "examplePlay =
     \<lparr> playId = ''play-1'', mode = nivel1, bet = 1,
       grid0 = replicate 3 (replicate 5 ''A''),
       cascades =
         [exampleStep [\<lparr> row = 0, col = 0 \<rparr>, \<lparr> row = 0, col = 1 \<rparr>, \<lparr> row = 0, col = 2 \<rparr>] 10
            (replicate 3 (replicate 5 ''B'')),
          exampleStep [\<lparr> row = 1, col = 0 \<rparr>, \<lparr> row = 1, col = 1 \<rparr>, \<lparr> row = 1, col = 2 \<rparr>,
                       \<lparr> row = 1, col = 3 \<rparr>] 25
            (replicate 3 (replicate 5 ''C''))],
       totalWin = 35 \<rparr>"

definition exampleScene :: Scene where
  "exampleScene = newScene None None (Some Replace) id"

definition bonusWinPlay :: PlayOutcome where
  "bonusWinPlay =
     \<lparr> playId = ''play-2'', mode = nivel1, bet = 1, grid0 = [[''N'']],
       cascades = [\<lparr> removeCells = [], dropIn = [], winStep = 5, gridAfter = None,
                     bonus = True, bonusData = None \<rparr>],
       totalWin = 5 \<rparr>"

text \<open>A scene in the middle of playing the example outcome: the removal of its first step is pending.\<close>

definition midRunScene :: Scene where
  "midRunScene =
     exampleScene\<lparr> currentPlay := Some examplePlay,
                    grid := Some (grid0 examplePlay),
                    boardSize := \<lparr> rows = 3, cols = 5 \<rparr>,
                    now := 500,
                    emitted := [CascadeStepEvent ''play-1'' 1 2],
                    timers := [(840, StartRemoval (cascades examplePlay ! 0) 0 2
                                       (NextStep examplePlay 0))] \<rparr>"

section \<open>The reel of the rodillo intro\<close>

text \<open>
  The rodillo intro runs on three kinds of callbacks, all closed over \<open>columnStates\<close>,
  \<open>lastColumnSpinSteps\<close> and \<open>stopSequenceScheduled\<close>, which the scene keeps in
  \<open>reel\<close>: the looping spin timer, the completion of a drop tween of a column, and the
  delayed stop call of a column.  \<open>scheduleStopSequence\<close> hands one stop call per column
  to the clock, column \<open>col\<close> with the delay \<open>col * stopDelay\<close>; \<open>pendingStops\<close> holds
  those calls with their delays and \<open>stopped\<close> the columns whose stop call has run, in
  the order in which they ran.  The calls that start the drop of a column and the call
  that removes the spin timer after the last stop only start tweens or end the ticking;
  they are left out, so the events below may follow each other in more orders than the
  clock allows.
\<close>

definition stopDelay :: nat where
  "stopDelay = 220"

definition scheduleStopSequence :: "Reel \<Rightarrow> Reel" where
  "scheduleStopSequence r =
     (if stopSequenceScheduled r then r
      else r\<lparr> stopSequenceScheduled := True,
             pendingStops := map (\<lambda>c. (c * stopDelay, c)) [0..<reelCols r] \<rparr>)"

text \<open>One turn of \<open>columnStates.forEach\<close> in the callback of the spin timer.\<close>

definition tickColumn :: "Scene \<Rightarrow> nat \<Rightarrow> Scene" where
  "tickColumn s i =
     (case reel s of
        None \<Rightarrow> s
      | Some r \<Rightarrow>
          (let st = columnStates r ! i
           in if \<not> spinning st then s
              else
                (let st' = st\<lparr> stripCursor := stripCursor st + 1 \<rparr>;
                     r1 = r\<lparr> columnStates := (columnStates r)[i := st'] \<rparr>;
                     r2 = (if stCol st' = reelCols r1 - 1 \<and> \<not> stopSequenceScheduled r1
                           then (let r3 = r1\<lparr> lastColumnSpinSteps := lastColumnSpinSteps r1 + 1 \<rparr>
                                 in if lastColumnSpinSteps r3 \<ge> requiredLastColumnSteps r3
                                    then scheduleStopSequence r3 else r3)
                           else r1)
                 in s\<lparr> cellMap := showStrip st' (cellMap s), reel := Some r2 \<rparr>)))"

definition spinTick :: "Scene \<Rightarrow> Scene" where
  "spinTick s =
     (case reel s of
        None \<Rightarrow> s
      | Some r \<Rightarrow> foldl tickColumn s [0..<length (columnStates r)])"

text \<open>
  \<open>onComplete\<close> of one drop tween of a column: the column starts spinning when the
  tweens of all its cells have completed.
\<close>

definition dropTweenComplete :: "nat \<Rightarrow> Scene \<Rightarrow> Scene" where
  "dropTweenComplete c s =
     (case reel s of
        None \<Rightarrow> s
      | Some r \<Rightarrow>
          if c < length (columnStates r)
          then (let st = columnStates r ! c;
                    n = completed st + 1;
                    st' = st\<lparr> completed := n,
                              spinning := (if n = length (stCells st) then True else spinning st) \<rparr>
                in s\<lparr> reel := Some (r\<lparr> columnStates := (columnStates r)[c := st'] \<rparr>) \<rparr>)
          else s)"

text \<open>
  The stop call of a column: the column stops spinning and its cells show the symbols of
  the grid.  The clock fires pending calls in due order, so the call that runs is the
  pending stop call that is due first.
\<close>

definition stopColumn :: "nat \<Rightarrow> Scene \<Rightarrow> Scene" where
  "stopColumn c s =
     (case reel s of
        None \<Rightarrow> s
      | Some r \<Rightarrow>
          (case arr (columnStates r) (int c) of
             None \<Rightarrow> s
           | Some st \<Rightarrow>
               (let st' = st\<lparr> spinning := False \<rparr>;
                    m = foldl (\<lambda>m' k.
                                 updateCellContainerSymbol k
                                   (case (case grid s of
                                            None \<Rightarrow> None
                                          | Some g \<Rightarrow> cellAt g (fst k) (int c)) of
                                      Some v \<Rightarrow> v
                                    | None \<Rightarrow>
                                        (case mapGet m' k of
                                           None \<Rightarrow> ''''
                                         | Some ct \<Rightarrow>
                                             (case shown ct of None \<Rightarrow> '''' | Some v \<Rightarrow> v)))
                                   m')
                              (cellMap s) (stCells st)
                in s\<lparr> cellMap := m,
                      reel := Some (r\<lparr> columnStates := (columnStates r)[c := st'] \<rparr>) \<rparr>)))"

datatype reelEvent = SpinTick | DropTweenComplete nat | StopCall

definition reelStep :: "Scene \<Rightarrow> reelEvent \<Rightarrow> Scene" where
  "reelStep s ev =
     (case ev of
        SpinTick \<Rightarrow> spinTick s
      | DropTweenComplete c \<Rightarrow> dropTweenComplete c s
      | StopCall \<Rightarrow>
          (case reel s of
             None \<Rightarrow> s
           | Some r \<Rightarrow>
               (case popNext (pendingStops r) of
                  None \<Rightarrow> s
                | Some ((due, c), rest) \<Rightarrow>
                    stopColumn c
                      (s\<lparr> reel := Some (r\<lparr> pendingStops := rest,
                                               stopped := stopped r @ [c] \<rparr>) \<rparr>))))"

definition reelRun :: "reelEvent list \<Rightarrow> Scene \<Rightarrow> Scene" where
  "reelRun evs s = foldl reelStep s evs"

text \<open>
  What stays true of the reel of a board with \<open>R\<close> rows and \<open>C\<close> columns whose last
  column started with strip cursor \<open>c0\<close>: it is used to follow the reel through its
  callbacks.
\<close>

definition reelInv :: "nat \<Rightarrow> nat \<Rightarrow> nat \<Rightarrow> Reel \<Rightarrow> bool" where
  "reelInv R C c0 r \<longleftrightarrow>
     length (columnStates r) = C \<and> reelCols r = C \<and> 0 < C
     \<and> requiredLastColumnSteps r = R * 2
     \<and> (\<forall>i<C. stCol (columnStates r ! i) = i)
     \<and> c0 + lastColumnSpinSteps r \<le> stripCursor (columnStates r ! (C - 1))
     \<and> (if stopSequenceScheduled r
         then R * 2 \<le> lastColumnSpinSteps r \<and> length (stopped r) \<le> C
              \<and> stopped r = [0..<length (stopped r)]
              \<and> pendingStops r = map (\<lambda>c. (c * stopDelay, c)) [length (stopped r)..<C]
         else pendingStops r = [] \<and> stopped r = [])"

definition rodilloScene :: Scene where
  "rodilloScene = newScene None None (Some Rodillo) id"

section \<open>Verified properties\<close>

subsection \<open>State machine\<close>

text \<open>
  Claim C10.  For every current machine, every next state and every partial context,
  \<open>transition\<close> sets the state to the next state, whatever the two states are, and the
  context afterwards maps each key of the partial update to the update's value and every
  other key to what it held before; without a partial update the context is unchanged.
\<close>

theorem transition_sets_and_merges:
  "state (transition next partial m) = next
   \<and> (partial = None \<longrightarrow> ctx (transition next partial m) = ctx m)
   \<and> (\<forall>p k. partial = Some p \<longrightarrow>
          ctx (transition next partial m) k = (if k \<in> dom p then p k else ctx m k))"
  by (auto simp: transition_def objectAssign_def Let_def map_add_def split: option.splits)

theorem transition_sets_and_merges_witness:
  "state (transition READY (Some [KeyMode \<mapsto> VMode nivel1, KeyPackId \<mapsto> VString ''pack-1''])
            (transition LOADING None (createStateMachine MENU))) = READY
   \<and> ctx (transition READY (Some [KeyMode \<mapsto> VMode nivel1, KeyPackId \<mapsto> VString ''pack-1''])
            (transition LOADING None (createStateMachine MENU))) KeyMode = Some (VMode nivel1)
   \<and> ctx (transition READY (Some [KeyMode \<mapsto> VMode nivel1, KeyPackId \<mapsto> VString ''pack-1''])
            (transition LOADING None (createStateMachine MENU))) KeyTicketIndex = None
   \<and> ctx (transition SUMMARY (Some [KeyPackId \<mapsto> VString ''p2''])
            \<lparr> state = MENU, ctx = [KeyTicketIndex \<mapsto> VNumber 4] \<rparr>) KeyTicketIndex = Some (VNumber 4)"
  using transition_sets_and_merges
          [of READY "Some [KeyMode \<mapsto> VMode nivel1, KeyPackId \<mapsto> VString ''pack-1'']"
              "transition LOADING None (createStateMachine MENU)"]
        transition_sets_and_merges
          [of SUMMARY "Some [KeyPackId \<mapsto> VString ''p2'']"
              "\<lparr> state = MENU, ctx = [KeyTicketIndex \<mapsto> VNumber 4] \<rparr>"]
  by (simp add: transition_def createStateMachine_def objectAssign_def)

subsection \<open>Layout metrics\<close>

lemma pickBoardSize_pos: "1 \<le> rows (pickBoardSize play md pv) \<and> 1 \<le> cols (pickBoardSize play md pv)"
  by (auto simp: pickBoardSize_def LEVEL_ONE_PREVIEW_SIZE_def LEVEL_TWO_PREVIEW_SIZE_def
                 Suc_le_eq
           split: option.splits list.splits)

lemma computeMetrics_unfold:
  assumes w: "0 < w" and h: "0 < h"
  shows "computeMetrics play w (Some h) md pv =
     (let bs = pickBoardSize play md pv;
          pad = (if w \<ge> 640 then 12 else 8);
          cell = min 72 (max 20 (min
                  (max 120 (w - pad * 2 - 2 * (real (cols bs) - 1)) / real (cols bs))
                  (max 120 (h - 32 - pad * 2 - 2 * (real (rows bs) - 1)) / real (rows bs))))
      in \<lparr> cellSize = cell, gap = 2, offsetY = 32, padding = pad,
           width = pad * 2 + real (cols bs) * cell + 2 * (real (cols bs) - 1),
           height = 32 + real (rows bs) * cell + 2 * (real (rows bs) - 1) + pad,
           mrows = rows bs, mcols = cols bs \<rparr>)"
proof -
  have mx: "max 1 (rows (pickBoardSize play md pv)) = rows (pickBoardSize play md pv)"
           "max 1 (cols (pickBoardSize play md pv)) = cols (pickBoardSize play md pv)"
    using pickBoardSize_pos[of play md pv] by simp_all
  have p: "0 < cols (pickBoardSize play md pv)" "0 < rows (pickBoardSize play md pv)"
    using pickBoardSize_pos[of play md pv] by simp_all
  have h0: "h \<noteq> 0" using h by simp
  show ?thesis
    by (simp only: computeMetrics_def Let_def mx option.case w h h0 p if_True simp_thms)
qed

text \<open>
  Claim C8.  For a positive container width and height, \<open>computeMetrics\<close> takes the
  smaller of the width-constrained and the height-constrained cell size, clamps it to
  between 20 and 72 pixels, and returns a canvas whose width is twice the padding plus the
  columns and their gaps and whose height is the top offset plus the rows, their gaps and
  the padding; every cell of the board, placed by \<open>getBoardOffsets\<close> and
  \<open>getCellPosition\<close>, lies inside that canvas; and the result depends on the outcome, the
  mode and the preview size only through the board shape.
\<close>

theorem computeMetrics_fits:
  assumes w: "0 < w" and h: "0 < h"
  shows "let bs = pickBoardSize play md pv;
             m = computeMetrics play w (Some h) md pv;
             pad = (if w \<ge> 640 then 12 else 8);
             byWidth = max 120 (w - pad * 2 - 2 * (real (cols bs) - 1)) / real (cols bs);
             byHeight = max 120 (h - 32 - pad * 2 - 2 * (real (rows bs) - 1)) / real (rows bs)
         in cellSize m = min 72 (max 20 (min byWidth byHeight))
          \<and> 20 \<le> cellSize m \<and> cellSize m \<le> 72
          \<and> mrows m = rows bs \<and> mcols m = cols bs
          \<and> width m = padding m * 2 + real (cols bs) * cellSize m + gap m * (real (cols bs) - 1)
          \<and> height m = offsetY m + real (rows bs) * cellSize m + gap m * (real (rows bs) - 1) + padding m
          \<and> (\<forall>r c. r < rows bs \<and> c < cols bs \<longrightarrow>
                (let (x, y) = getCellPosition m (getBoardOffsets m bs (width m) (height m)) r c
                 in 0 \<le> x \<and> x + cellSize m \<le> width m \<and> 0 \<le> y \<and> y + cellSize m \<le> height m))
          \<and> (\<forall>play' md' pv'. pickBoardSize play' md' pv' = bs \<longrightarrow>
                computeMetrics play' w (Some h) md' pv' = m)"
proof -
  define bs where "bs = pickBoardSize play md pv"
  define m where "m = computeMetrics play w (Some h) md pv"
  define pad :: real where "pad = (if w \<ge> 640 then 12 else 8)"
  define byWidth where "byWidth = max 120 (w - pad * 2 - 2 * (real (cols bs) - 1)) / real (cols bs)"
  define byHeight where "byHeight = max 120 (h - 32 - pad * 2 - 2 * (real (rows bs) - 1)) / real (rows bs)"
  define cell where "cell = min 72 (max 20 (min byWidth byHeight))"
  have pos: "1 \<le> rows bs" "1 \<le> cols bs"
    using pickBoardSize_pos[of play md pv] by (simp_all add: bs_def)
  have m_eq: "m = \<lparr> cellSize = cell, gap = 2, offsetY = 32, padding = pad,
           width = pad * 2 + real (cols bs) * cell + 2 * (real (cols bs) - 1),
           height = 32 + real (rows bs) * cell + 2 * (real (rows bs) - 1) + pad,
           mrows = rows bs, mcols = cols bs \<rparr>"
    unfolding m_def cell_def byWidth_def byHeight_def pad_def bs_def
    by (simp only: computeMetrics_unfold[OF w h] Let_def)
  have flds: "cellSize m = cell" "gap m = 2" "offsetY m = 32" "padding m = pad"
             "mrows m = rows bs" "mcols m = cols bs"
    by (simp_all only: m_eq BoardMetrics.select_convs)
  have wd: "width m = pad * 2 + real (cols bs) * cell + 2 * (real (cols bs) - 1)"
    by (simp only: m_eq BoardMetrics.select_convs)
  have ht: "height m = 32 + real (rows bs) * cell + 2 * (real (rows bs) - 1) + pad"
    by (simp only: m_eq BoardMetrics.select_convs)
  have rng: "20 \<le> cell" "cell \<le> 72"
    unfolding cell_def by simp_all
  have padv: "pad = 12 \<or> pad = 8" by (simp add: pad_def)
  have offs: "getBoardOffsets m bs (width m) (height m) = (round pad, 32)"
  proof -
    have a: "(width m - (real (cols bs) * cell + (real (cols bs) - 1) * 2)) / 2 = pad"
      unfolding wd by (simp add: algebra_simps)
    have b: "(height m - (real (rows bs) * cell + (real (rows bs) - 1) * 2)) / 2 = (32 + pad) / 2"
      unfolding ht by (simp add: algebra_simps)
    have c: "round ((32 + pad) / 2) \<le> 32"
      using padv by (auto simp: round_def)
    have d: "max (real_of_int (round ((32 + pad) / 2))) 32 = 32"
      using c by simp
    show ?thesis
      unfolding getBoardOffsets_def Let_def flds a b d by simp
  qed
  have rp: "real_of_int (round pad) = pad" using padv by auto
  have inside: "0 \<le> x \<and> x + cell \<le> width m \<and> 0 \<le> y \<and> y + cell \<le> height m"
    if rc: "r < rows bs" "c < cols bs"
       and xy: "getCellPosition m (getBoardOffsets m bs (width m) (height m)) r c = (x, y)"
    for r c x y
  proof -
    have x: "x = pad + real c * (cell + 2)" and y: "y = 32 + real r * (cell + 2)"
      using xy unfolding offs getCellPosition_def by (simp_all add: rp flds)
    have p0: "0 \<le> pad" using padv by auto
    have s0: "0 \<le> cell + 2" using rng by simp
    have c1: "real c \<le> real (cols bs) - 1" using rc by linarith
    have r1: "real r \<le> real (rows bs) - 1" using rc by linarith
    have cm: "real c * (cell + 2) \<le> (real (cols bs) - 1) * (cell + 2)"
      using c1 s0 by (rule mult_right_mono)
    have rm: "real r * (cell + 2) \<le> (real (rows bs) - 1) * (cell + 2)"
      using r1 s0 by (rule mult_right_mono)
    have x0: "0 \<le> x" unfolding x using p0 s0 by simp
    have y0: "0 \<le> y" unfolding y using s0 by simp
    have x1: "x + cell \<le> width m"
      unfolding x wd using cm p0 by (simp add: algebra_simps)
    have y1: "y + cell \<le> height m"
      unfolding y ht using rm p0 by (simp add: algebra_simps)
    show ?thesis using x0 x1 y0 y1 by simp
  qed
  have pure: "computeMetrics play' w (Some h) md' pv' = m"
    if "pickBoardSize play' md' pv' = bs" for play' md' pv'
    unfolding m_def
    by (simp only: computeMetrics_unfold[OF w h] that bs_def[symmetric])
  have c1: "cellSize m = min 72 (max 20 (min byWidth byHeight))"
    by (simp only: flds cell_def)
  have c2: "20 \<le> cellSize m \<and> cellSize m \<le> 72"
    using rng by (simp only: flds)
  have c3: "width m = padding m * 2 + real (cols bs) * cellSize m + gap m * (real (cols bs) - 1)"
    by (simp only: flds wd)
  have c4: "height m = offsetY m + real (rows bs) * cellSize m + gap m * (real (rows bs) - 1) + padding m"
    by (simp only: flds ht)
  have c5: "\<forall>r c. r < rows bs \<and> c < cols bs \<longrightarrow>
                (let (x, y) = getCellPosition m (getBoardOffsets m bs (width m) (height m)) r c
                 in 0 \<le> x \<and> x + cellSize m \<le> width m \<and> 0 \<le> y \<and> y + cellSize m \<le> height m)"
    using inside unfolding flds by (auto simp only: Let_def split: prod.splits)
  have c6: "\<forall>play' md' pv'. pickBoardSize play' md' pv' = bs \<longrightarrow>
                computeMetrics play' w (Some h) md' pv' = m"
    using pure by blast
  show ?thesis
    unfolding Let_def bs_def[symmetric] m_def[symmetric] pad_def[symmetric]
              byWidth_def[symmetric] byHeight_def[symmetric]
    using c1 c2 flds(5,6) c3 c4 c5[unfolded Let_def] c6 by blast
qed

theorem computeMetrics_fits_witness:
  "(0::real) < 300 \<and> (0::real) < 500
   \<and> cellSize (computeMetrics None 300 (Some 500) (Some nivel1) None) = 276 / 5
   \<and> 20 \<le> cellSize (computeMetrics None 300 (Some 500) (Some nivel1) None)
   \<and> cellSize (computeMetrics None 300 (Some 500) (Some nivel1) None) \<le> 72"
proof -
  have w: "(0::real) < 300" and h: "(0::real) < 500" by simp_all
  have bs: "pickBoardSize None (Some nivel1) None = \<lparr> rows = 3, cols = 5 \<rparr>"
    by (simp add: pickBoardSize_def LEVEL_ONE_PREVIEW_SIZE_def)
  have c: "cellSize (computeMetrics None 300 (Some 500) (Some nivel1) None)
            = min 72 (max 20 (min (max 120 (300 - 8 * 2 - 2 * (real 5 - 1)) / real 5)
                                   (max 120 (500 - 32 - 8 * 2 - 2 * (real 3 - 1)) / real 3)))"
    using computeMetrics_fits [OF w h, of None "Some nivel1" None]
    unfolding Let_def bs by simp
  have c': "cellSize (computeMetrics None 300 (Some 500) (Some nivel1) None) = 276 / 5"
    unfolding c by simp
  show ?thesis
    unfolding c' using w h by simp
qed

subsection \<open>Bonus trigger highlight\<close>












subsection \<open>Callbacks never throw on a normalised grid\<close>

lemma arr_normalizeGrid:
  "r < nrows \<Longrightarrow> arr (normalizeGrid g nrows ncols) (int r) \<noteq> None"
  by (simp add: arr_def normalizeGrid_def)

lemma forE_ok:
  assumes "\<And>x acc. x \<in> set xs \<Longrightarrow> \<exists>acc'. body x acc = Inr acc'"
  shows "\<exists>acc'. forE xs body acc = Inr acc'"
  using assms
proof (induction xs arbitrary: acc)
  case Nil
  show ?case by simp
next
  case (Cons x xs)
  obtain a where a: "body x acc = Inr a" using Cons.prems[of x acc] by auto
  have "\<exists>acc'. forE xs body a = Inr acc'"
    by (rule Cons.IH) (use Cons.prems in auto)
  then show ?case using a by simp
qed

lemma replaceFill_ok:
  "\<exists>m. replaceFill (normalizeGrid g nrows ncols) rs old nrows ncols = Inr m"
  unfolding replaceFill_def
proof (rule forE_ok)
  fix r acc
  assume "r \<in> set [0..<nrows]"
  then have r: "r < nrows" by simp
  obtain rw where rw: "arr (normalizeGrid g nrows ncols) (int r) = Some rw"
    using arr_normalizeGrid[OF r, of g ncols] by auto
  show "\<exists>acc'. forE [0..<ncols]
            (\<lambda>c newMap.
                let k = (int r, int c)
                in case if k \<notin> rs then mapGet old k else None of
                   None \<Rightarrow>
                     (case arr (normalizeGrid g nrows ncols) (int r) of
                        None \<Rightarrow> Inl TypeError
                      | Some rw \<Rightarrow>
                          Inr (mapSet k (newContainer (arr rw (int c)) (int r) (int c)) newMap))
                   | Some existing \<Rightarrow>
                       Inr (mapSet k (existing\<lparr>dataRow := int r, dataCol := int c\<rparr>) newMap))
            acc = Inr acc'"
    by (rule forE_ok) (simp add: rw Let_def split: option.splits)
qed

lemma drawGrid_ok:
  assumes "\<And>r. r < max 1 (rows (boardSize s)) \<Longrightarrow> arr g (int r) \<noteq> None"
  shows "\<exists>m. drawGrid g s = Inr (s\<lparr> cellMap := m,
            grid := Some (normalizeGrid g (max 1 (rows (boardSize s))) (max 1 (cols (boardSize s)))),
            boardSize := \<lparr> rows = max 1 (rows (boardSize s)), cols = max 1 (cols (boardSize s)) \<rparr> \<rparr>)"
proof -
  have "\<exists>m. forE [0..<max 1 (rows (boardSize s))]
                (\<lambda>r. forE [0..<max 1 (cols (boardSize s))]
                   (\<lambda>c m. case arr g (int r) of
                             None \<Rightarrow> Inl TypeError
                           | Some rw \<Rightarrow>
                               Inr (mapSet (int r, int c)
                                      (newContainer (arr rw (int c)) (int r) (int c)) m)))
                [] = Inr m"
  proof (rule forE_ok)
    fix r acc
    assume "r \<in> set [0..<max 1 (rows (boardSize s))]"
    then obtain rw where rw: "arr g (int r) = Some rw" using assms[of r] by auto
    show "\<exists>acc'. forE [0..<max 1 (cols (boardSize s))]
                   (\<lambda>c m. case arr g (int r) of
                             None \<Rightarrow> Inl TypeError
                           | Some rw \<Rightarrow>
                               Inr (mapSet (int r, int c)
                                      (newContainer (arr rw (int c)) (int r) (int c)) m)) acc = Inr acc'"
      by (rule forE_ok) (simp add: rw)
  qed
  then obtain m where m: "forE [0..<max 1 (rows (boardSize s))]
                (\<lambda>r. forE [0..<max 1 (cols (boardSize s))]
                   (\<lambda>c m. case arr g (int r) of
                             None \<Rightarrow> Inl TypeError
                           | Some rw \<Rightarrow>
                               Inr (mapSet (int r, int c)
                                      (newContainer (arr rw (int c)) (int r) (int c)) m)))
                [] = Inr m" by blast
  show ?thesis
    unfolding drawGrid_def Let_def m by (auto intro!: exI[of _ m])
qed

subsection \<open>What each callback changes\<close>

lemma delayedCall_sel [simp]:
  "timers (delayedCall d t s) = timers s @ [(now s + d, t)]"
  "emitted (delayedCall d t s) = emitted s"
  "grid (delayedCall d t s) = grid s"
  "currentPlay (delayedCall d t s) = currentPlay s"
  "accumulatedWin (delayedCall d t s) = accumulatedWin s"
  "boardSize (delayedCall d t s) = boardSize s"
  "fillMode (delayedCall d t s) = fillMode s"
  "cellMap (delayedCall d t s) = cellMap s"
  by (simp_all add: delayedCall_def)

lemma emit_sel [simp]:
  "timers (emit e s) = timers s"
  "emitted (emit e s) = emitted s @ [e]"
  "grid (emit e s) = grid s"
  "currentPlay (emit e s) = currentPlay s"
  "accumulatedWin (emit e s) = accumulatedWin s"
  "boardSize (emit e s) = boardSize s"
  "fillMode (emit e s) = fillMode s"
  "cellMap (emit e s) = cellMap s"
  "now (emit e s) = now s"
  by (simp_all add: emit_def)

lemma playExplosion_sel [simp]:
  "timers (playExplosion r c symb s) = timers s"
  "emitted (playExplosion r c symb s) = emitted s"
  "grid (playExplosion r c symb s) = grid s"
  "currentPlay (playExplosion r c symb s) = currentPlay s"
  "accumulatedWin (playExplosion r c symb s) = accumulatedWin s"
  "boardSize (playExplosion r c symb s) = boardSize s"
  "fillMode (playExplosion r c symb s) = fillMode s"
  "cellMap (playExplosion r c symb s) = cellMap s"
  "now (playExplosion r c symb s) = now s"
  by (simp_all add: playExplosion_def)

lemma explosions_sel [simp]:
  "timers (foldl (\<lambda>s' cell. playExplosion (f cell) (g cell) (h s' cell) s') s cells) = timers s"
  "emitted (foldl (\<lambda>s' cell. playExplosion (f cell) (g cell) (h s' cell) s') s cells) = emitted s"
  "grid (foldl (\<lambda>s' cell. playExplosion (f cell) (g cell) (h s' cell) s') s cells) = grid s"
  "currentPlay (foldl (\<lambda>s' cell. playExplosion (f cell) (g cell) (h s' cell) s') s cells) = currentPlay s"
  "accumulatedWin (foldl (\<lambda>s' cell. playExplosion (f cell) (g cell) (h s' cell) s') s cells) = accumulatedWin s"
  "boardSize (foldl (\<lambda>s' cell. playExplosion (f cell) (g cell) (h s' cell) s') s cells) = boardSize s"
  "fillMode (foldl (\<lambda>s' cell. playExplosion (f cell) (g cell) (h s' cell) s') s cells) = fillMode s"
  "cellMap (foldl (\<lambda>s' cell. playExplosion (f cell) (g cell) (h s' cell) s') s cells) = cellMap s"
  "now (foldl (\<lambda>s' cell. playExplosion (f cell) (g cell) (h s' cell) s') s cells) = now s"
  by (induction cells arbitrary: s) simp_all

lemma currentPlayId_Some:
  "currentPlay s = Some p \<Longrightarrow> currentPlayId s = (if playId p \<noteq> [] then Some (playId p) else None)"
  by (simp add: currentPlayId_def)

lemma invoke_sel [simp]:
  "timers (invoke (NextStep p i) s) = timers s @ [(now s + 250, RunStep p (Suc i))]"
  "emitted (invoke cb s) = emitted s"
  "grid (invoke cb s) = grid s"
  "currentPlay (invoke cb s) = currentPlay s"
  "accumulatedWin (invoke cb s) = accumulatedWin s"
  "boardSize (invoke cb s) = boardSize s"
  "fillMode (invoke cb s) = fillMode s"
  "cellMap (invoke cb s) = cellMap s"
  by (simp_all add: invoke_def split: callback.splits)

lemma run_single:
  "timers s = [(d, t)] \<Longrightarrow>
     run s = (case fire t (s\<lparr> now := max (now s) d, timers := [] \<rparr>) of
                Inl e \<Rightarrow> Inl e | Inr s' \<Rightarrow> run s')"
  by (subst run.simps) simp

lemma run_empty: "timers s = [] \<Longrightarrow> run s = Inr s"
  by (subst run.simps) simp

lemma bonusDone_props:
  assumes "currentPlay s = Some p" "grid s \<noteq> None" "timers s = []"
  shows "pending p (RunStep p (Suc i)) (bonusDone step (NextStep p i) s)"
    and "emitted (bonusDone step (NextStep p i) s)
           = emitted s @ (if playId p \<noteq> [] then [BonusTriggered (playId p) (bonusData step)] else [])"
    and "accumulatedWin (bonusDone step (NextStep p i) s) = accumulatedWin s"
  using assms
  by (simp_all add: bonusDone_def pending_def currentPlayId_Some)

lemma startRemoval_props:
  assumes "currentPlay s = Some p" "grid s \<noteq> None" "timers s = []"
  shows "pending p (ApplyRefill step j n cb) (startRemoval step j n cb s)"
    and "emitted (startRemoval step j n cb s)
           = emitted s @ (if playId p \<noteq> [] \<and> winStep step > 0
                          then [WinIncrement (playId p) (winStep step)] else [])"
    and "accumulatedWin (startRemoval step j n cb s)
           = accumulatedWin s + (if playId p \<noteq> [] \<and> winStep step > 0 then winStep step else 0)"
proof -
  define s1 where "s1 = foldl (\<lambda>s' cell.
                        playExplosion (row cell) (col cell)
                          (case (case grid s' of
                                   None \<Rightarrow> None
                                 | Some g \<Rightarrow> cellAt g (row cell) (col cell)) of
                             Some v \<Rightarrow> v
                           | None \<Rightarrow> '''')
                          s')
                     s (removeCells step)"
  have s1: "timers s1 = timers s" "emitted s1 = emitted s" "grid s1 = grid s"
           "currentPlay s1 = currentPlay s" "accumulatedWin s1 = accumulatedWin s"
    unfolding s1_def by simp_all
  have cp: "currentPlayId s1 = (if playId p \<noteq> [] then Some (playId p) else None)"
    using assms s1 by (simp add: currentPlayId_Some)
  have eq: "startRemoval step j n cb s =
     delayedCall 680 (ApplyRefill step j n cb)
       (if playId p \<noteq> [] \<and> winStep step > 0
        then emit (WinIncrement (playId p) (winStep step))
               (s1\<lparr> accumulatedWin := accumulatedWin s1 + winStep step \<rparr>)
        else s1)"
    unfolding startRemoval_def Let_def s1_def[symmetric] cp by simp
  show "pending p (ApplyRefill step j n cb) (startRemoval step j n cb s)"
    unfolding eq pending_def using assms s1 by simp
  show "emitted (startRemoval step j n cb s)
           = emitted s @ (if playId p \<noteq> [] \<and> winStep step > 0
                          then [WinIncrement (playId p) (winStep step)] else [])"
    unfolding eq using s1 by simp
  show "accumulatedWin (startRemoval step j n cb s)
           = accumulatedWin s + (if playId p \<noteq> [] \<and> winStep step > 0 then winStep step else 0)"
    unfolding eq using s1 by simp
qed

lemma applyRefill_props:
  assumes "currentPlay s = Some p" "grid s \<noteq> None" "timers s = []"
  shows "\<exists>s'. applyRefill step j n (NextStep p i) s = Inr s'
              \<and> pending p (Invoke (NextStep p i)) s'
              \<and> emitted s' = emitted s \<and> accumulatedWin s' = accumulatedWin s"
proof -
  obtain g where g: "grid s = Some g" using assms by auto
  show ?thesis
  proof (cases "fillMode s = Some Replace")
    case True
    obtain m where m: "replaceFill
          (normalizeGrid (case gridAfter step of Some ga \<Rightarrow> ga | None \<Rightarrow> g)
             (rows (boardSize s)) (cols (boardSize s)))
          (removeSetOf step) (cellMap s) (rows (boardSize s)) (cols (boardSize s)) = Inr m"
      using replaceFill_ok by blast
    show ?thesis
      using assms g True m
      by (simp add: applyRefill_def Let_def pending_def)
  next
    case False
    then show ?thesis
      using assms g
      by (simp add: applyRefill_def Let_def pending_def)
  qed
qed

lemma pendingD:
  assumes "pending p t s"
  obtains d where "timers s = [(d, t)]" "currentPlay s = Some p" "grid s \<noteq> None"
  using assms unfolding pending_def by blast

lemma run_invoke:
  assumes "pending p (Invoke (NextStep p i)) s"
  shows "\<exists>s2. run s = run s2 \<and> pending p (RunStep p (Suc i)) s2
              \<and> emitted s2 = emitted s \<and> accumulatedWin s2 = accumulatedWin s"
proof -
  obtain d where d: "timers s = [(d, Invoke (NextStep p i))]"
    and cp: "currentPlay s = Some p" and g: "grid s \<noteq> None"
    using assms by (rule pendingD)
  let ?s2 = "invoke (NextStep p i) (s\<lparr> now := max (now s) d, timers := [] \<rparr>)"
  have "run s = run ?s2" by (simp add: run_single[OF d] fire_def)
  moreover have "pending p (RunStep p (Suc i)) ?s2" using cp g by (simp add: pending_def)
  moreover have "emitted ?s2 = emitted s" "accumulatedWin ?s2 = accumulatedWin s" by simp_all
  ultimately show ?thesis by blast
qed

lemma run_applyRefill:
  assumes "pending p (ApplyRefill step j n (NextStep p i)) s"
  shows "\<exists>s2. run s = run s2 \<and> pending p (RunStep p (Suc i)) s2
              \<and> emitted s2 = emitted s \<and> accumulatedWin s2 = accumulatedWin s"
proof -
  obtain d where d: "timers s = [(d, ApplyRefill step j n (NextStep p i))]"
    and cp: "currentPlay s = Some p" and g: "grid s \<noteq> None"
    using assms by (rule pendingD)
  let ?s0 = "s\<lparr> now := max (now s) d, timers := [] \<rparr>"
  obtain s1 where s1: "applyRefill step j n (NextStep p i) ?s0 = Inr s1"
      "pending p (Invoke (NextStep p i)) s1"
      "emitted s1 = emitted ?s0" "accumulatedWin s1 = accumulatedWin ?s0"
    using applyRefill_props[of ?s0 p step j n i] cp g by auto
  have "run s = run s1" by (simp add: run_single[OF d] fire_def s1(1))
  then show ?thesis using run_invoke[OF s1(2)] s1(3,4) by auto
qed

lemma run_startRemoval:
  assumes "pending p (StartRemoval step j n (NextStep p i)) s"
  shows "\<exists>s2. run s = run s2 \<and> pending p (RunStep p (Suc i)) s2
              \<and> emitted s2 = emitted s @ (if playId p \<noteq> [] \<and> winStep step > 0
                          then [WinIncrement (playId p) (winStep step)] else [])
              \<and> accumulatedWin s2 = accumulatedWin s
                   + (if playId p \<noteq> [] \<and> winStep step > 0 then winStep step else 0)"
proof -
  obtain d where d: "timers s = [(d, StartRemoval step j n (NextStep p i))]"
    and cp: "currentPlay s = Some p" and g: "grid s \<noteq> None"
    using assms by (rule pendingD)
  let ?s0 = "s\<lparr> now := max (now s) d, timers := [] \<rparr>"
  let ?s1 = "startRemoval step j n (NextStep p i) ?s0"
  have pr: "currentPlay ?s0 = Some p" "grid ?s0 \<noteq> None" "timers ?s0 = []"
    using cp g by simp_all
  have "run s = run ?s1" by (simp add: run_single[OF d] fire_def)
  then show ?thesis
    using run_applyRefill[OF startRemoval_props(1)[OF pr, where step=step and j=j and n=n and cb="NextStep p i"]]
          startRemoval_props(2,3)[OF pr, where step=step and j=j and n=n and cb="NextStep p i"]
    by auto
qed

lemma run_bonusDone:
  assumes "pending p (BonusDone step (NextStep p i)) s"
  shows "\<exists>s2. run s = run s2 \<and> pending p (RunStep p (Suc i)) s2
              \<and> emitted s2 = emitted s @ (if playId p \<noteq> []
                          then [BonusTriggered (playId p) (bonusData step)] else [])
              \<and> accumulatedWin s2 = accumulatedWin s"
proof -
  obtain d where d: "timers s = [(d, BonusDone step (NextStep p i))]"
    and cp: "currentPlay s = Some p" and g: "grid s \<noteq> None"
    using assms by (rule pendingD)
  let ?s0 = "s\<lparr> now := max (now s) d, timers := [] \<rparr>"
  let ?s1 = "bonusDone step (NextStep p i) ?s0"
  have pr: "currentPlay ?s0 = Some p" "grid ?s0 \<noteq> None" "timers ?s0 = []"
    using cp g by simp_all
  have "run s = run ?s1" by (simp add: run_single[OF d] fire_def)
  then show ?thesis
    using bonusDone_props[OF pr, where i=i and step=step] by auto
qed

lemma animateStep_run:
  assumes cp: "currentPlay s = Some p" and g: "grid s \<noteq> None" and t: "timers s = []"
  shows "\<exists>s2. run (animateStep step idx n (NextStep p i) s) = run s2
              \<and> pending p (RunStep p (Suc i)) s2
              \<and> emitted s2 = emitted s @ stepNotifications (playId p) n idx step
              \<and> accumulatedWin s2 = accumulatedWin s + stepCredit (playId p) step"
proof -
  obtain gr where gr: "grid s = Some gr" using g by auto
  define s1 where "s1 = (if playId p \<noteq> [] then emit (CascadeStepEvent (playId p) (idx + 1) n) s else s)"
  have s1: "currentPlay s1 = Some p" "grid s1 = Some gr" "timers s1 = []"
           "emitted s1 = emitted s @ (if playId p \<noteq> [] then [CascadeStepEvent (playId p) (idx + 1) n] else [])"
           "accumulatedWin s1 = accumulatedWin s"
    using cp gr t by (simp_all add: s1_def)
  have s1n: "grid s1 \<noteq> None" using s1 by simp
  have an: "animateStep step idx n (NextStep p i) s =
      (if bonus step
       then playBonusTriggerHighlight (stepTriggerCount step) (stepTriggerCells step) step (NextStep p i) s1
       else if playMatchContour (removeCells step) > 0
            then delayedCall (playMatchContour (removeCells step))
                   (StartRemoval step idx n (NextStep p i)) s1
            else startRemoval step idx n (NextStep p i) s1)"
    using gr cp by (simp add: animateStep_def Let_def s1_def currentPlayId_Some)
  show ?thesis
  proof (cases "bonus step")
    case True
    define targets where "targets = highlightTargets gr (boardSize s1) (stepTriggerCount step) (stepTriggerCells step)"
    show ?thesis
    proof (cases "length targets = 0")
      case True
      have "animateStep step idx n (NextStep p i) s = bonusDone step (NextStep p i) s1"
        using \<open>bonus step\<close> True s1
        by (simp add: an playBonusTriggerHighlight_def Let_def targets_def)
      then show ?thesis
        using bonusDone_props[OF s1(1) s1n s1(3), where i=i and step=step] s1(4,5) \<open>bonus step\<close>
        by (auto simp: stepNotifications_def stepCredit_def)
    next
      case False
      define s2 where "s2 = animateStep step idx n (NextStep p i) s"
      have pb: "pending p (BonusDone step (NextStep p i)) s2"
           and e2: "emitted s2 = emitted s1" and a2: "accumulatedWin s2 = accumulatedWin s1"
        using \<open>bonus step\<close> False s1
        by (simp_all add: s2_def an playBonusTriggerHighlight_def Let_def targets_def pending_def)
      show ?thesis
        using run_bonusDone[OF pb] e2 a2 s1(4,5) \<open>bonus step\<close>
        unfolding s2_def[symmetric]
        by (auto simp: stepNotifications_def stepCredit_def)
    qed
  next
    case False
    show ?thesis
    proof (cases "playMatchContour (removeCells step) > 0")
      case True
      define s2 where "s2 = animateStep step idx n (NextStep p i) s"
      have pb: "pending p (StartRemoval step idx n (NextStep p i)) s2"
           and e2: "emitted s2 = emitted s1" and a2: "accumulatedWin s2 = accumulatedWin s1"
        using \<open>\<not> bonus step\<close> True s1
        by (simp_all add: s2_def an pending_def)
      show ?thesis
        using run_startRemoval[OF pb] e2 a2 s1(4,5) \<open>\<not> bonus step\<close>
        unfolding s2_def[symmetric]
        by (auto simp: stepNotifications_def stepCredit_def)
    next
      case nc: False
      define s2 where "s2 = animateStep step idx n (NextStep p i) s"
      have eq: "s2 = startRemoval step idx n (NextStep p i) s1"
        using \<open>\<not> bonus step\<close> nc by (simp add: s2_def an)
      have pb: "pending p (ApplyRefill step idx n (NextStep p i)) s2"
        unfolding eq by (rule startRemoval_props(1)[OF s1(1) s1n s1(3)])
      show ?thesis
        using run_applyRefill[OF pb]
              startRemoval_props(2,3)[OF s1(1) s1n s1(3), where step=step and j=idx and n=n and cb="NextStep p i"]
              s1(4,5) \<open>\<not> bonus step\<close>
        unfolding s2_def[symmetric] eq[symmetric]
        by (auto simp: stepNotifications_def stepCredit_def)
    qed
  qed
qed

lemma run_RunStep:
  assumes "pending p (RunStep p idx) s"
  shows "\<exists>s'. run s = Inr s' \<and> timers s' = []
              \<and> emitted s' = emitted s @ tailNotifications p idx
              \<and> accumulatedWin s' = accumulatedWin s + tailCredit p idx
              \<and> currentPlay s' = Some p \<and> grid s' \<noteq> None"
  using assms
proof (induction "length (cascades p) - idx" arbitrary: idx s)
  case 0
  obtain d where d: "timers s = [(d, RunStep p idx)]"
    and cp: "currentPlay s = Some p" and g: "grid s \<noteq> None"
    using "0.prems" by (rule pendingD)
  obtain gr where gr: "grid s = Some gr" using g by auto
  have ge: "length (cascades p) \<le> idx" using "0.hyps" by simp
  let ?s1 = "emit (CascadeCompleted (playId p) (length (cascades p))) (s\<lparr> now := max (now s) d, timers := [] \<rparr>)"
  have "run s = run ?s1"
    using ge gr by (simp add: run_single[OF d] fire_def runStep_def)
  also have "\<dots> = Inr ?s1" by (rule run_empty) simp
  finally show ?case
    using ge cp gr by (auto simp: tailNotifications_def tailCredit_def)
next
  case (Suc k)
  obtain d where d: "timers s = [(d, RunStep p idx)]"
    and cp: "currentPlay s = Some p" and g: "grid s \<noteq> None"
    using Suc.prems by (rule pendingD)
  obtain gr where gr: "grid s = Some gr" using g by auto
  have lt: "idx < length (cascades p)" using Suc.hyps by simp
  let ?s0 = "s\<lparr> now := max (now s) d, timers := [] \<rparr>"
  have pr: "currentPlay ?s0 = Some p" "grid ?s0 \<noteq> None" "timers ?s0 = []"
    using cp g by simp_all
  have r0: "run s = run (animateStep (cascades p ! idx) idx (length (cascades p)) (NextStep p idx) ?s0)"
    using lt gr by (simp add: run_single[OF d] fire_def runStep_def)
  obtain s2 where s2: "run (animateStep (cascades p ! idx) idx (length (cascades p)) (NextStep p idx) ?s0) = run s2"
      "pending p (RunStep p (Suc idx)) s2"
      "emitted s2 = emitted ?s0 @ stepNotifications (playId p) (length (cascades p)) idx (cascades p ! idx)"
      "accumulatedWin s2 = accumulatedWin ?s0 + stepCredit (playId p) (cascades p ! idx)"
    using animateStep_run[OF pr, where step="cascades p ! idx" and idx=idx and n="length (cascades p)" and i=idx] by blast
  have k: "k = length (cascades p) - Suc idx" using Suc.hyps by simp
  obtain s' where s': "run s2 = Inr s'" "timers s' = []"
      "emitted s' = emitted s2 @ tailNotifications p (Suc idx)"
      "accumulatedWin s' = accumulatedWin s2 + tailCredit p (Suc idx)"
      "currentPlay s' = Some p" "grid s' \<noteq> None"
    using Suc.hyps(1)[OF k s2(2)] by blast
  have tn: "tailNotifications p idx
      = stepNotifications (playId p) (length (cascades p)) idx (cascades p ! idx) @ tailNotifications p (Suc idx)"
    using lt by (simp add: tailNotifications_def upt_conv_Cons)
  have tc: "tailCredit p idx = stepCredit (playId p) (cascades p ! idx) + tailCredit p (Suc idx)"
    using lt by (simp add: tailCredit_def upt_conv_Cons)
  show ?case
    using r0 s2 s' tn tc by (intro exI[of _ s']) simp
qed

subsection \<open>Submitting an outcome\<close>

lemma playBoardIntro_shape:
  "\<exists>m r k. snd (playBoardIntro s) = s\<lparr> cellMap := m, reel := r, rndPos := k \<rparr>"
proof (cases "length (cellMap s) \<noteq> 0 \<and> fillMode s = Some Rodillo")
  case True
  then have "\<exists>m r k. playBoardIntro s = (fst (playBoardIntro s), s\<lparr> cellMap := m, reel := r, rndPos := k \<rparr>)"
    unfolding playBoardIntro_def Let_def by (simp only: if_True if_False simp_thms fst_conv) blast
  then show ?thesis by (metis snd_conv)
next
  case False
  then have "snd (playBoardIntro s) = s"
    unfolding playBoardIntro_def Let_def by (auto simp only: if_True if_False simp_thms snd_conv split: if_splits)
  moreover have "s = s\<lparr> cellMap := cellMap s, reel := reel s, rndPos := rndPos s \<rparr>" by simp
  ultimately show ?thesis by metis
qed

lemma playBoardIntro_sel [simp]:
  "timers (snd (playBoardIntro s)) = timers s"
  "emitted (snd (playBoardIntro s)) = emitted s"
  "grid (snd (playBoardIntro s)) = grid s"
  "currentPlay (snd (playBoardIntro s)) = currentPlay s"
  "accumulatedWin (snd (playBoardIntro s)) = accumulatedWin s"
  "boardSize (snd (playBoardIntro s)) = boardSize s"
  "fillMode (snd (playBoardIntro s)) = fillMode s"
  "now (snd (playBoardIntro s)) = now s"
proof -
  obtain m r k where e: "snd (playBoardIntro s) = s\<lparr> cellMap := m, reel := r, rndPos := k \<rparr>"
    using playBoardIntro_shape by blast
  show "timers (snd (playBoardIntro s)) = timers s"
    "emitted (snd (playBoardIntro s)) = emitted s"
    "grid (snd (playBoardIntro s)) = grid s"
    "currentPlay (snd (playBoardIntro s)) = currentPlay s"
    "accumulatedWin (snd (playBoardIntro s)) = accumulatedWin s"
    "boardSize (snd (playBoardIntro s)) = boardSize s"
    "fillMode (snd (playBoardIntro s)) = fillMode s"
    "now (snd (playBoardIntro s)) = now s"
    unfolding e by simp_all
qed

lemma normalizeGrid_shape:
  "length (normalizeGrid g nrows ncols) = nrows"
  "rw \<in> set (normalizeGrid g nrows ncols) \<Longrightarrow> length rw = ncols"
  by (auto simp: normalizeGrid_def)

lemma cellAt_normalizeGrid:
  "i < nrows \<Longrightarrow> j < ncols \<Longrightarrow>
     cellAt (normalizeGrid g nrows ncols) (int i) (int j)
       = Some (case cellAt g (int i) (int j) of Some v \<Rightarrow> v | None \<Rightarrow> '''')"
  by (simp add: cellAt_def arr_def normalizeGrid_def)

lemma normalizeGrid_idem:
  "normalizeGrid (normalizeGrid g nrows ncols) nrows ncols = normalizeGrid g nrows ncols"
proof -
  have "map (\<lambda>r. map (\<lambda>c. case cellAt (normalizeGrid g nrows ncols) (int r) (int c) of
                              Some v \<Rightarrow> v | None \<Rightarrow> '''') [0..<ncols]) [0..<nrows]
        = map (\<lambda>r. map (\<lambda>c. case cellAt g (int r) (int c) of
                              Some v \<Rightarrow> v | None \<Rightarrow> '''') [0..<ncols]) [0..<nrows]"
    by (intro map_cong refl) (simp add: cellAt_normalizeGrid)
  then show ?thesis by (subst normalizeGrid_def) (simp add: normalizeGrid_def[symmetric])
qed

lemma renderPlay_props:
  "\<exists>s1. renderPlay p s = Inr s1
      \<and> pending p (RunStep p 0) s1
      \<and> emitted s1 = emitted s \<and> accumulatedWin s1 = 0 \<and> currentPlay s1 = Some p
      \<and> boardSize s1 = \<lparr> rows = max 1 (rows (pickBoardSize (Some p) (previewMode s) (previewSize s))),
                         cols = max 1 (cols (pickBoardSize (Some p) (previewMode s) (previewSize s))) \<rparr>
      \<and> grid s1 = Some (normalizeGrid (grid0 p) (rows (boardSize s1)) (cols (boardSize s1)))
      \<and> fillMode s1 = fillMode s"
proof -
  define nr where "nr = max 1 (rows (pickBoardSize (Some p) (previewMode s) (previewSize s)))"
  define nc where "nc = max 1 (cols (pickBoardSize (Some p) (previewMode s) (previewSize s)))"
  define g where "g = normalizeGrid (grid0 p) nr nc"
  define s3 where "s3 = s\<lparr> timers := [], currentPlay := Some p, accumulatedWin := 0,
                            boardSize := \<lparr> rows = nr, cols = nc \<rparr>, grid := Some g \<rparr>"
  have mx: "max 1 nr = nr" "max 1 nc = nc" by (simp_all add: nr_def nc_def)
  have bs3: "boardSize s3 = \<lparr> rows = nr, cols = nc \<rparr>" by (simp add: s3_def)
  have rows_ok: "arr g (int r) \<noteq> None" if "r < max 1 (rows (boardSize s3))" for r
  proof -
    have "r < nr" using that by (simp only: bs3 GridSize.select_convs mx)
    then show ?thesis unfolding g_def by (rule arr_normalizeGrid)
  qed
  have "\<exists>m. drawGrid g s3 = Inr (s3\<lparr> cellMap := m,
            grid := Some (normalizeGrid g (max 1 (rows (boardSize s3))) (max 1 (cols (boardSize s3)))),
            boardSize := \<lparr> rows = max 1 (rows (boardSize s3)), cols = max 1 (cols (boardSize s3)) \<rparr> \<rparr>)"
    by (rule drawGrid_ok) (rule rows_ok)
  then obtain m where m: "drawGrid g s3 = Inr (s3\<lparr> cellMap := m,
            grid := Some (normalizeGrid g nr nc), boardSize := \<lparr> rows = nr, cols = nc \<rparr> \<rparr>)"
    by (auto simp only: bs3 GridSize.select_convs mx)
  define s4 where "s4 = s3\<lparr> cellMap := m, grid := Some g, boardSize := \<lparr> rows = nr, cols = nc \<rparr> \<rparr>"
  have dg: "drawGrid g s3 = Inr s4"
    using m by (simp add: s4_def g_def normalizeGrid_idem)
  define s1 where "s1 = delayedCall (max 320 (fst (playBoardIntro s4) + 120)) (RunStep p 0)
                          (snd (playBoardIntro s4))"
  have rp: "renderPlay p s = Inr s1"
    unfolding renderPlay_def Let_def
    by (simp add: nr_def[symmetric] nc_def[symmetric] g_def[symmetric] s3_def[symmetric] dg
                  s1_def split_beta del: One_nat_def)
  have s4: "timers s4 = []" "emitted s4 = emitted s" "accumulatedWin s4 = 0"
           "currentPlay s4 = Some p" "boardSize s4 = \<lparr> rows = nr, cols = nc \<rparr>"
           "grid s4 = Some g" "fillMode s4 = fillMode s"
    by (simp_all add: s4_def s3_def)
  show ?thesis
    using rp s4
    by (intro exI[of _ s1])
       (simp add: s1_def pending_def nr_def nc_def g_def)
qed

lemma playToEnd_result:
  "\<exists>s'. playToEnd p s = Inr s' \<and> timers s' = []
      \<and> emitted s' = emitted s @ tailNotifications p 0
      \<and> accumulatedWin s' = tailCredit p 0
      \<and> currentPlay s' = Some p \<and> grid s' \<noteq> None"
proof -
  obtain s1 where s1: "renderPlay p s = Inr s1" "pending p (RunStep p 0) s1"
      "emitted s1 = emitted s" "accumulatedWin s1 = 0"
    using renderPlay_props[of p s] by blast
  show ?thesis
    using run_RunStep[OF s1(2)] s1 by (auto simp: playToEnd_def andThen_def)
qed

lemma concat_map_singleton: "concat (map (\<lambda>x. [f x]) xs) = map f xs"
  by (induction xs) simp_all

lemma concat_map_if: "concat (map (\<lambda>x. if P x then [f x] else []) xs) = map f (filter P xs)"
  by (induction xs) simp_all

lemma filter_step_stepNotifications:
  "filter isCascadeStep (stepNotifications pid n i st)
     = (if pid \<noteq> [] then [CascadeStepEvent pid (i + 1) n] else [])"
  by (simp add: stepNotifications_def isCascadeStep_def)

lemma filter_completed_stepNotifications:
  "filter isCascadeCompleted (stepNotifications pid n i st) = []"
  by (simp add: stepNotifications_def isCascadeCompleted_def)

lemma filter_win_stepNotifications:
  "filter isWinIncrement (stepNotifications pid n i st)
     = (if \<not> bonus st \<and> pid \<noteq> [] \<and> winStep st > 0 then [WinIncrement pid (winStep st)] else [])"
  by (simp add: stepNotifications_def isWinIncrement_def)

lemma sum_win_stepNotifications:
  "sum_list (map winAmount (stepNotifications pid n i st)) = stepCredit pid st"
  by (simp add: stepNotifications_def stepCredit_def winAmount_def)

lemma tailNotifications_split:
  "tailNotifications p 0 =
     concat (map (\<lambda>i. stepNotifications (playId p) (length (cascades p)) i (cascades p ! i))
                 [0..<length (cascades p)])
     @ [CascadeCompleted (playId p) (length (cascades p))]"
  by (simp add: tailNotifications_def)

lemma map_index: "map (\<lambda>i. f (xs ! i)) [0..<length xs] = map f xs"
  by (rule nth_equalityI) auto

lemma sum_stepCredit:
  "sum_list (map (stepCredit pid) xs) =
     (if pid = [] then 0
      else sum_list (map winStep (filter (\<lambda>st. \<not> bonus st \<and> 0 < winStep st) xs)))"
  by (induction xs) (auto simp: stepCredit_def)

lemma tailCredit_filter:
  "tailCredit p 0 =
     (if playId p = [] then 0
      else sum_list (map winStep (filter (\<lambda>st. \<not> bonus st \<and> 0 < winStep st) (cascades p))))"
  unfolding tailCredit_def map_index sum_stepCredit ..

subsection \<open>Notifications of a whole outcome\<close>

text \<open>
  Claim C1, as amended.  For every outcome and every scene it is submitted to, the run
  ends with no call pending and has emitted, after what was on the bus before, the
  notifications of the steps followed by exactly one sequence-completed notification whose
  \<open>totalSteps\<close> is the number of steps.  When the play id is non-empty there is exactly
  one step notification per step, in step order, carrying the 1-based step number \<open>i + 1\<close>
  for the \<open>i\<close>-th step and the step count; when the play id is empty no step notification
  is emitted.  For an outcome without steps only the sequence-completed notification is
  emitted.
\<close>

theorem cascade_step_notifications:
  "\<exists>s' tr. playToEnd p s = Inr s' \<and> timers s' = []
      \<and> emitted s' = emitted s @ tr @ [CascadeCompleted (playId p) (length (cascades p))]
      \<and> filter isCascadeStep tr =
            (if playId p = [] then []
             else map (\<lambda>i. CascadeStepEvent (playId p) (i + 1) (length (cascades p)))
                      [0..<length (cascades p)])
      \<and> filter isCascadeCompleted tr = []
      \<and> (cascades p = [] \<longrightarrow> tr = [])"
proof -
  obtain s' where s': "playToEnd p s = Inr s'" "timers s' = []"
      "emitted s' = emitted s @ tailNotifications p 0"
    using playToEnd_result[of p s] by blast
  define tr where "tr = concat (map (\<lambda>i. stepNotifications (playId p) (length (cascades p)) i (cascades p ! i))
                 [0..<length (cascades p)])"
  have e: "emitted s' = emitted s @ tr @ [CascadeCompleted (playId p) (length (cascades p))]"
    using s'(3) by (simp add: tailNotifications_split tr_def)
  have f1: "filter isCascadeStep tr =
            (if playId p = [] then []
             else map (\<lambda>i. CascadeStepEvent (playId p) (i + 1) (length (cascades p)))
                      [0..<length (cascades p)])"
    by (simp add: tr_def filter_concat comp_def filter_step_stepNotifications concat_map_singleton)
  have f2: "filter isCascadeCompleted tr = []"
    by (simp add: tr_def filter_concat comp_def filter_completed_stepNotifications)
  have f3: "cascades p = [] \<longrightarrow> tr = []" by (simp add: tr_def)
  show ?thesis using s'(1,2) e f1 f2 f3 by blast
qed

lemma exampleScene_emitted: "emitted exampleScene = []"
  by (simp add: exampleScene_def newScene_def)

lemma examplePlay_notifications:
  "tailNotifications examplePlay 0 =
     [CascadeStepEvent ''play-1'' 1 2, WinIncrement ''play-1'' 10,
      CascadeStepEvent ''play-1'' 2 2, WinIncrement ''play-1'' 25,
      CascadeCompleted ''play-1'' 2]"
  by (simp add: tailNotifications_def examplePlay_def exampleStep_def stepNotifications_def
                upt_rec)

theorem cascade_step_notifications_witness:
  "map_sum id emitted (playToEnd (examplePlay\<lparr> cascades := [] \<rparr>) exampleScene)
     = Inr [CascadeCompleted ''play-1'' 0]"
  using cascade_step_notifications [of "examplePlay\<lparr> cascades := [] \<rparr>" exampleScene]
  by (auto simp: exampleScene_emitted examplePlay_def)

text \<open>
  The claim as stated numbers the steps from 0.  For the outcome of the specification's
  own example (two match steps with wins 10 and 25) the step notifications carry 1 and 2.
\<close>

theorem cascade_step_index_counterexample:
  "map_sum id emitted (playToEnd examplePlay exampleScene)
     = Inr [CascadeStepEvent ''play-1'' 1 2, WinIncrement ''play-1'' 10,
            CascadeStepEvent ''play-1'' 2 2, WinIncrement ''play-1'' 25,
            CascadeCompleted ''play-1'' 2]
   \<and> map_sum id emitted (playToEnd examplePlay exampleScene)
     \<noteq> Inr [CascadeStepEvent ''play-1'' 0 2, WinIncrement ''play-1'' 10,
            CascadeStepEvent ''play-1'' 1 2, WinIncrement ''play-1'' 25,
            CascadeCompleted ''play-1'' 2]"
  using playToEnd_result [of examplePlay exampleScene]
  by (auto simp: exampleScene_emitted examplePlay_notifications)

lemma startRemoval_emitted:
  assumes "currentPlay s = Some p"
  shows "emitted (startRemoval step j n cb s)
           = emitted s @ (if playId p \<noteq> [] \<and> winStep step > 0
                          then [WinIncrement (playId p) (winStep step)] else [])"
proof -
  define s1 where "s1 = foldl (\<lambda>s' cell.
                        playExplosion (row cell) (col cell)
                          (case (case grid s' of
                                   None \<Rightarrow> None
                                 | Some g \<Rightarrow> cellAt g (row cell) (col cell)) of
                             Some v \<Rightarrow> v
                           | None \<Rightarrow> '''')
                          s')
                     s (removeCells step)"
  have s1: "emitted s1 = emitted s" "currentPlay s1 = currentPlay s"
    unfolding s1_def by simp_all
  have cp: "currentPlayId s1 = (if playId p \<noteq> [] then Some (playId p) else None)"
    using assms s1 by (simp add: currentPlayId_Some)
  show ?thesis
    unfolding startRemoval_def Let_def s1_def[symmetric] cp using s1 by simp
qed

lemma win_events_of_steps:
  "concat (map (\<lambda>st. if \<not> bonus st \<and> pid \<noteq> [] \<and> winStep st > 0
                       then [WinIncrement pid (winStep st)] else []) xs)
     = (if pid = [] then []
        else map (\<lambda>st. WinIncrement pid (winStep st))
                 (filter (\<lambda>st. \<not> bonus st \<and> 0 < winStep st) xs))"
  by (induction xs) auto

lemma sum_winAmount_concat:
  "sum_list (map winAmount (concat (map f xs))) = sum_list (map (\<lambda>x. sum_list (map winAmount (f x))) xs)"
  by (induction xs) simp_all

lemma sum_positive_match_wins:
  assumes "\<forall>st \<in> set xs. 0 \<le> winStep st \<and> (bonus st \<longrightarrow> winStep st = 0)"
  shows "sum_list (map winStep (filter (\<lambda>st. \<not> bonus st \<and> 0 < winStep st) xs))
           = sum_list (map winStep xs)"
  using assms by (induction xs) (auto simp: order_less_le)

text \<open>
  Claim C2, as amended.  For every outcome with a non-empty play id, a win notification
  is emitted exactly for each step that is not a bonus step and has a positive
  \<open>winStep\<close>, in step order, carrying that step's \<open>winStep\<close>; the amounts emitted sum
  to the scene's accumulated win at the end, which is the sum of \<open>winStep\<close> over those
  steps (and over all steps when no step has a negative win and no bonus step has a win).
  With an empty play id nothing is credited.  The notification is emitted by
  \<open>startRemoval\<close>, when the removal starts.
\<close>

theorem win_notifications:
  "(\<exists>s' tr. playToEnd p s = Inr s' \<and> emitted s' = emitted s @ tr
      \<and> filter isWinIncrement tr =
            (if playId p = [] then []
             else map (\<lambda>st. WinIncrement (playId p) (winStep st))
                      (filter (\<lambda>st. \<not> bonus st \<and> 0 < winStep st) (cascades p)))
      \<and> sum_list (map winAmount tr) = accumulatedWin s'
      \<and> accumulatedWin s' =
            (if playId p = [] then 0
             else sum_list (map winStep (filter (\<lambda>st. \<not> bonus st \<and> 0 < winStep st) (cascades p))))
      \<and> (playId p \<noteq> [] \<and> (\<forall>st \<in> set (cascades p). 0 \<le> winStep st \<and> (bonus st \<longrightarrow> winStep st = 0))
            \<longrightarrow> accumulatedWin s' = sum_list (map winStep (cascades p))))
   \<and> (currentPlay s = Some p \<longrightarrow>
         emitted (startRemoval step j n cb s)
           = emitted s @ (if playId p \<noteq> [] \<and> 0 < winStep step
                          then [WinIncrement (playId p) (winStep step)] else []))"
proof -
  obtain s' where s': "playToEnd p s = Inr s'"
      "emitted s' = emitted s @ tailNotifications p 0"
      "accumulatedWin s' = tailCredit p 0"
    using playToEnd_result[of p s] by blast
  define tr where "tr = tailNotifications p 0"
  have w1: "filter isWinIncrement tr =
            (if playId p = [] then []
             else map (\<lambda>st. WinIncrement (playId p) (winStep st))
                      (filter (\<lambda>st. \<not> bonus st \<and> 0 < winStep st) (cascades p)))"
  proof -
    have "filter isWinIncrement tr
        = concat (map (\<lambda>i. if \<not> bonus (cascades p ! i) \<and> playId p \<noteq> [] \<and> winStep (cascades p ! i) > 0
                            then [WinIncrement (playId p) (winStep (cascades p ! i))] else [])
                      [0..<length (cascades p)])"
      by (simp add: tr_def tailNotifications_split filter_concat comp_def
                    filter_win_stepNotifications isWinIncrement_def)
    also have "\<dots> = concat (map (\<lambda>st. if \<not> bonus st \<and> playId p \<noteq> [] \<and> winStep st > 0
                            then [WinIncrement (playId p) (winStep st)] else []) (cascades p))"
      using map_index[of "\<lambda>st. if \<not> bonus st \<and> playId p \<noteq> [] \<and> winStep st > 0
                            then [WinIncrement (playId p) (winStep st)] else []" "cascades p"]
      by simp
    finally show ?thesis by (simp only: win_events_of_steps)
  qed
  have w2: "sum_list (map winAmount tr) = tailCredit p 0"
    by (simp add: tr_def tailNotifications_split sum_winAmount_concat sum_win_stepNotifications
                  tailCredit_def winAmount_def)
  have w3: "accumulatedWin s' =
            (if playId p = [] then 0
             else sum_list (map winStep (filter (\<lambda>st. \<not> bonus st \<and> 0 < winStep st) (cascades p))))"
    using s'(3) by (simp only: tailCredit_filter)
  have w4: "playId p \<noteq> [] \<and> (\<forall>st \<in> set (cascades p). 0 \<le> winStep st \<and> (bonus st \<longrightarrow> winStep st = 0))
            \<longrightarrow> accumulatedWin s' = sum_list (map winStep (cascades p))"
    using w3 sum_positive_match_wins[of "cascades p"] by auto
  have w5: "currentPlay s = Some p \<longrightarrow>
         emitted (startRemoval step j n cb s)
           = emitted s @ (if playId p \<noteq> [] \<and> 0 < winStep step
                          then [WinIncrement (playId p) (winStep step)] else [])"
    using startRemoval_emitted[of s p step j n cb] by simp
  have "\<exists>s' tr. playToEnd p s = Inr s' \<and> emitted s' = emitted s @ tr
      \<and> filter isWinIncrement tr =
            (if playId p = [] then []
             else map (\<lambda>st. WinIncrement (playId p) (winStep st))
                      (filter (\<lambda>st. \<not> bonus st \<and> 0 < winStep st) (cascades p)))
      \<and> sum_list (map winAmount tr) = accumulatedWin s'
      \<and> accumulatedWin s' =
            (if playId p = [] then 0
             else sum_list (map winStep (filter (\<lambda>st. \<not> bonus st \<and> 0 < winStep st) (cascades p))))
      \<and> (playId p \<noteq> [] \<and> (\<forall>st \<in> set (cascades p). 0 \<le> winStep st \<and> (bonus st \<longrightarrow> winStep st = 0))
            \<longrightarrow> accumulatedWin s' = sum_list (map winStep (cascades p)))"
    using s'(1) s'(2)[folded tr_def] w1 w2[folded s'(3)] w3 w4 by blast
  then show ?thesis using w5 by blast
qed

theorem win_notifications_witness:
  "map_sum id accumulatedWin (playToEnd examplePlay exampleScene) = Inr 35
   \<and> sum_list (map winStep (cascades examplePlay)) = 35"
proof -
  have a: "playId examplePlay \<noteq> []"
    by (simp add: examplePlay_def)
  have b: "\<forall>st \<in> set (cascades examplePlay). 0 \<le> winStep st \<and> (bonus st \<longrightarrow> winStep st = 0)"
    by (simp add: examplePlay_def exampleStep_def)
  have c: "sum_list (map winStep (cascades examplePlay)) = 35"
    by (simp add: examplePlay_def exampleStep_def)
  obtain s' where "playToEnd examplePlay exampleScene = Inr s'"
      "accumulatedWin s' = sum_list (map winStep (cascades examplePlay))"
    using win_notifications [of examplePlay exampleScene] a b by blast
  then show ?thesis using c by simp
qed

text \<open>
  The claim as stated sums \<open>winStep\<close> over all steps.  A bonus step with a win of 5 is
  played without any win notification and leaves the accumulated win at 0.
\<close>

theorem win_sum_counterexample:
  "map_sum id accumulatedWin (playToEnd bonusWinPlay exampleScene) = Inr 0
   \<and> map_sum id emitted (playToEnd bonusWinPlay exampleScene)
       = Inr [CascadeStepEvent ''play-2'' 1 1, BonusTriggered ''play-2'' None,
              CascadeCompleted ''play-2'' 1]
   \<and> sum_list (map winStep (cascades bonusWinPlay)) = 5"
  using playToEnd_result [of bonusWinPlay exampleScene]
  by (auto simp: exampleScene_emitted tailCredit_filter tailNotifications_def
                 stepNotifications_def bonusWinPlay_def)

subsection \<open>Replay, cancellation and refill\<close>

text \<open>
  Claim C3.  Submitting the same outcome twice in a row, the second time to the scene the
  first run left behind, puts the same list of notifications on the bus both times, and so
  does submitting it to the scene with any fill mode and any sequence of \<open>Math.random\<close>
  draws: the notifications depend on the outcome alone.
\<close>

theorem replay_is_deterministic:
  "\<exists>tr s1 s2. playToEnd p s = Inr s1 \<and> emitted s1 = emitted s @ tr
      \<and> playToEnd p s1 = Inr s2 \<and> emitted s2 = emitted s1 @ tr
      \<and> (\<forall>fm draws pos. \<exists>s3. playToEnd p (s\<lparr> fillMode := fm, rnd := draws, rndPos := pos \<rparr>) = Inr s3
                \<and> emitted s3 = emitted s @ tr)"
proof -
  obtain s1 where s1: "playToEnd p s = Inr s1" "emitted s1 = emitted s @ tailNotifications p 0"
    using playToEnd_result[of p s] by blast
  obtain s2 where s2: "playToEnd p s1 = Inr s2" "emitted s2 = emitted s1 @ tailNotifications p 0"
    using playToEnd_result[of p s1] by blast
  have "\<exists>s3. playToEnd p (s\<lparr> fillMode := fm, rnd := draws, rndPos := pos \<rparr>) = Inr s3
                \<and> emitted s3 = emitted s @ tailNotifications p 0" for fm draws pos
    using playToEnd_result[of p "s\<lparr> fillMode := fm, rnd := draws, rndPos := pos \<rparr>"] by auto
  then show ?thesis using s1 s2 by blast
qed

theorem replay_is_deterministic_witness:
  "map_sum id emitted (andThen (playToEnd examplePlay exampleScene) (playToEnd examplePlay))
     = map_sum id (\<lambda>s1. emitted s1 @ emitted s1) (playToEnd examplePlay exampleScene)"
  using replay_is_deterministic [of examplePlay exampleScene]
  by (auto simp: exampleScene_emitted andThen_def)






lemma normalizeGrid_id:
  assumes "length g = nrows" "\<forall>rw \<in> set g. length rw = ncols"
  shows "normalizeGrid g nrows ncols = g"
proof (rule nth_equalityI)
  show "length (normalizeGrid g nrows ncols) = length g"
    using assms by (simp add: normalizeGrid_def)
next
  fix i assume "i < length (normalizeGrid g nrows ncols)"
  then have i: "i < nrows" by (simp add: normalizeGrid_def)
  then have li: "length (g ! i) = ncols" using assms by simp
  show "normalizeGrid g nrows ncols ! i = g ! i"
  proof (rule nth_equalityI)
    show "length (normalizeGrid g nrows ncols ! i) = length (g ! i)"
      using i li by (simp add: normalizeGrid_def)
  next
    fix j assume "j < length (normalizeGrid g nrows ncols ! i)"
    then have j: "j < ncols" using i by (simp add: normalizeGrid_def)
    show "normalizeGrid g nrows ncols ! i ! j = g ! i ! j"
      using i j li assms(1) by (simp add: normalizeGrid_def cellAt_def arr_def)
  qed
qed

text \<open>
  Claim C5.  While a grid is present, the refill callback of a match step whose
  \<open>gridAfter\<close> is given returns normally under every fill mode (replace, cascade,
  rodillo or none) and leaves as the scene's grid the step's \<open>gridAfter\<close> normalised to
  the board shape, which is \<open>gridAfter\<close> itself when it has that shape; the board shape
  is unchanged and the completion call it schedules does not change the grid.
\<close>

theorem refill_sets_gridAfter:
  assumes "grid s = Some g" and "gridAfter step = Some ga"
  shows "\<exists>s' d. fire (ApplyRefill step j n cb) (s\<lparr> fillMode := fm \<rparr>) = Inr s'
           \<and> grid s' = Some (normalizeGrid ga (rows (boardSize s)) (cols (boardSize s)))
           \<and> (length ga = rows (boardSize s) \<and> (\<forall>rw \<in> set ga. length rw = cols (boardSize s))
                \<longrightarrow> grid s' = Some ga)
           \<and> boardSize s' = boardSize s
           \<and> timers s' = timers s @ [(d, Invoke cb)]
           \<and> grid (invoke cb s') = grid s'"
proof -
  let ?s = "s\<lparr> fillMode := fm \<rparr>"
  let ?g' = "normalizeGrid ga (rows (boardSize s)) (cols (boardSize s))"
  have idn: "length ga = rows (boardSize s) \<and> (\<forall>rw \<in> set ga. length rw = cols (boardSize s))
                \<longrightarrow> Some ?g' = Some ga"
    using normalizeGrid_id[of ga "rows (boardSize s)" "cols (boardSize s)"] by simp
  show ?thesis
  proof (cases "fm = Some Replace")
    case True
    obtain m where m: "replaceFill ?g' (removeSetOf step) (cellMap s)
                         (rows (boardSize s)) (cols (boardSize s)) = Inr m"
      using replaceFill_ok by blast
    let ?s' = "delayedCall 400 (Invoke cb) (?s\<lparr> grid := Some ?g', cellMap := m \<rparr>)"
    have "fire (ApplyRefill step j n cb) ?s = Inr ?s'"
      using assms True m by (simp add: fire_def applyRefill_def Let_def)
    then show ?thesis
      using idn by (intro exI[of _ ?s'] exI[of _ "now s + 400"]) simp
  next
    case False
    let ?s' = "delayedCall 600 (Invoke cb)
                 (?s\<lparr> grid := Some ?g',
                      cellMap := cascadeFill (removeSetOf step) (dropIn step) (cellMap s)
                                   (rows (boardSize s)) (cols (boardSize s)) \<rparr>)"
    have "fire (ApplyRefill step j n cb) ?s = Inr ?s'"
      using assms False by (simp add: fire_def applyRefill_def Let_def)
    then show ?thesis
      using idn by (intro exI[of _ ?s'] exI[of _ "now s + 600"]) simp
  qed
qed

theorem refill_sets_gridAfter_witness:
  "map_sum id grid
     (fire (ApplyRefill (cascades examplePlay ! 0) 0 2 (NextStep examplePlay 0))
        (midRunScene\<lparr> fillMode := Some Rodillo \<rparr>))
     = Inr (Some (replicate 3 (replicate 5 ''B'')))"
proof -
  have g: "grid midRunScene = Some (grid0 examplePlay)"
    and b: "boardSize midRunScene = \<lparr> rows = 3, cols = 5 \<rparr>"
    by (simp_all add: midRunScene_def)
  have a: "gridAfter (cascades examplePlay ! 0) = Some (replicate 3 (replicate 5 ''B''))"
    by (simp add: examplePlay_def exampleStep_def)
  show ?thesis
    using refill_sets_gridAfter [OF g a, of 0 2 "NextStep examplePlay 0" "Some Rodillo"]
    by (auto simp: b)
qed

subsection \<open>Reel of the rodillo intro\<close>

lemma popNext_mem: "popNext ts = Some (y, rest) \<Longrightarrow> y \<in> set ts"
  by (induction ts arbitrary: y rest) (auto split: option.splits if_splits)

lemma popNext_head:
  assumes "\<forall>y \<in> set xs. fst x \<le> fst y"
  shows "popNext (x # xs) = Some (x, xs)"
proof (cases "popNext xs")
  case None
  then show ?thesis by (simp add: popNext_None)
next
  case (Some a)
  obtain y rest where a: "a = (y, rest)" by (cases a)
  have "y \<in> set xs" using Some a popNext_mem by fastforce
  then show ?thesis using Some a assms by simp
qed

lemma popNext_stops:
  assumes "k < C"
  shows "popNext (map (\<lambda>c. (c * stopDelay, c)) [k..<C])
           = Some ((k * stopDelay, k), map (\<lambda>c. (c * stopDelay, c)) [Suc k..<C])"
proof -
  have "[k..<C] = k # [Suc k..<C]" using assms by (simp add: upt_conv_Cons)
  then show ?thesis by (simp add: popNext_head del: popNext.simps)
qed

lemma tickColumn_inv:
  assumes r: "reel s = Some r" and inv: "reelInv R C c0 r" and i: "i < C"
  shows "\<exists>r'. reel (tickColumn s i) = Some r' \<and> reelInv R C c0 r'"
proof (cases "spinning (columnStates r ! i)")
  case False
  then show ?thesis using r inv by (simp add: tickColumn_def)
next
  case True
  define st' where "st' = (columnStates r ! i)\<lparr> stripCursor := stripCursor (columnStates r ! i) + 1 \<rparr>"
  define r1 where "r1 = r\<lparr> columnStates := (columnStates r)[i := st'] \<rparr>"
  define r3 where "r3 = r1\<lparr> lastColumnSpinSteps := lastColumnSpinSteps r1 + 1 \<rparr>"
  define r2 where "r2 = (if stCol st' = reelCols r1 - 1 \<and> \<not> stopSequenceScheduled r1
                         then (if lastColumnSpinSteps r3 \<ge> requiredLastColumnSteps r3
                               then scheduleStopSequence r3 else r3)
                         else r1)"
  have eq: "tickColumn s i = s\<lparr> cellMap := showStrip st' (cellMap s), reel := Some r2 \<rparr>"
    unfolding tickColumn_def r2_def r3_def r1_def st'_def Let_def using r True by simp
  have len: "length (columnStates r) = C" and C: "0 < C" and rc: "reelCols r = C"
    using inv by (simp_all add: reelInv_def)
  have col: "stCol st' = i" using inv i by (simp add: st'_def reelInv_def)
  have rc1: "reelCols r1 = C" "stopSequenceScheduled r1 = stopSequenceScheduled r"
    using rc by (simp_all add: r1_def)
  have inv1: "reelInv R C c0 r1"
    using inv i len unfolding reelInv_def r1_def st'_def
    by (auto simp: nth_list_update)
  have inv2: "reelInv R C c0 r2"
  proof (cases "i = C - 1 \<and> \<not> stopSequenceScheduled r")
    case False
    then have "r2 = r1" using col rc1 by (auto simp: r2_def)
    then show ?thesis using inv1 by simp
  next
    case last: True
    have cur: "stripCursor (columnStates r1 ! (C - 1)) = stripCursor (columnStates r ! (C - 1)) + 1"
      using last i len by (simp add: r1_def st'_def)
    have same: "lastColumnSpinSteps r1 = lastColumnSpinSteps r" by (simp add: r1_def)
    have le: "c0 + lastColumnSpinSteps r \<le> stripCursor (columnStates r ! (C - 1))"
      using inv by (simp add: reelInv_def)
    have inv3: "reelInv R C c0 r3"
      using inv1 last cur same le rc1 unfolding reelInv_def r3_def
      by simp
    have ns: "\<not> stopSequenceScheduled r3" using last rc1 by (simp add: r3_def)
    have inv4: "reelInv R C c0 (scheduleStopSequence r3)"
      if "requiredLastColumnSteps r3 \<le> lastColumnSpinSteps r3"
      using inv3 ns that unfolding reelInv_def scheduleStopSequence_def by simp
    have "r2 = (if lastColumnSpinSteps r3 \<ge> requiredLastColumnSteps r3
                then scheduleStopSequence r3 else r3)"
      using last col rc1 by (simp add: r2_def)
    then show ?thesis using inv3 inv4 by simp
  qed
  show ?thesis unfolding eq using inv2 by simp
qed

lemma tickColumns_inv:
  assumes "reel s = Some r" "reelInv R C c0 r" "\<forall>i \<in> set is. i < C"
  shows "\<exists>r'. reel (foldl tickColumn s is) = Some r' \<and> reelInv R C c0 r'"
  using assms
proof (induction "is" arbitrary: s r)
  case Nil
  then show ?case by simp
next
  case (Cons i "is")
  obtain r1 where r1: "reel (tickColumn s i) = Some r1" "reelInv R C c0 r1"
    using tickColumn_inv[OF Cons.prems(1,2), of i] Cons.prems(3) by auto
  show ?case using Cons.IH[OF r1] Cons.prems(3) by simp
qed

lemma spinTick_inv:
  assumes "reel s = Some r" "reelInv R C c0 r"
  shows "\<exists>r'. reel (spinTick s) = Some r' \<and> reelInv R C c0 r'"
proof -
  have "length (columnStates r) = C" using assms(2) by (simp add: reelInv_def)
  then show ?thesis
    using tickColumns_inv[OF assms, of "[0..<C]"] assms(1) by (simp add: spinTick_def)
qed

lemma dropTweenComplete_inv:
  assumes "reel s = Some r" "reelInv R C c0 r"
  shows "\<exists>r'. reel (dropTweenComplete c s) = Some r' \<and> reelInv R C c0 r'"
proof (cases "c < length (columnStates r)")
  case False
  then show ?thesis using assms by (simp add: dropTweenComplete_def)
next
  case True
  then show ?thesis
    using assms unfolding dropTweenComplete_def reelInv_def Let_def
    by (auto simp: nth_list_update)
qed

lemma stopCall_inv:
  assumes r: "reel s = Some r" and inv: "reelInv R C c0 r"
  shows "\<exists>r'. reel (reelStep s StopCall) = Some r' \<and> reelInv R C c0 r'"
proof (cases "stopSequenceScheduled r \<and> length (stopped r) < C")
  case False
  have "pendingStops r = []"
  proof (cases "stopSequenceScheduled r")
    case True
    then have "length (stopped r) = C" using False inv by (simp add: reelInv_def)
    then show ?thesis using True inv by (simp add: reelInv_def)
  next
    case ns: False
    then show ?thesis using inv by (simp add: reelInv_def)
  qed
  then show ?thesis using r inv by (simp add: reelStep_def)
next
  case True
  define k where "k = length (stopped r)"
  have k: "k < C" using True by (simp add: k_def)
  have len: "length (columnStates r) = C" using inv by (simp add: reelInv_def)
  have ps: "pendingStops r = map (\<lambda>c. (c * stopDelay, c)) [k..<C]"
    and st: "stopped r = [0..<k]"
    using inv True by (simp_all add: reelInv_def k_def)
  define r1 where "r1 = r\<lparr> pendingStops := map (\<lambda>c. (c * stopDelay, c)) [Suc k..<C],
                              stopped := stopped r @ [k] \<rparr>"
  have step: "reelStep s StopCall = stopColumn k (s\<lparr> reel := Some r1 \<rparr>)"
    using r by (simp add: reelStep_def ps popNext_stops[OF k] r1_def del: popNext.simps)
  have ak: "arr (columnStates r1) (int k) = Some (columnStates r ! k)"
    using k len by (simp add: arr_def r1_def)
  obtain m where sc: "stopColumn k (s\<lparr> reel := Some r1 \<rparr>)
      = s\<lparr> reel := Some r1, cellMap := m,
            reel := Some (r1\<lparr> columnStates := (columnStates r1)[k := (columnStates r ! k)\<lparr> spinning := False \<rparr>] \<rparr>) \<rparr>"
    by (simp add: stopColumn_def ak Let_def)
  have "reelInv R C c0 (r1\<lparr> columnStates := (columnStates r1)[k := (columnStates r ! k)\<lparr> spinning := False \<rparr>] \<rparr>)"
    using inv True k len st unfolding reelInv_def r1_def k_def[symmetric]
    by (auto simp: nth_list_update)
  then show ?thesis unfolding step sc by simp
qed

lemma reelStep_inv:
  assumes "reel s = Some r" "reelInv R C c0 r"
  shows "\<exists>r'. reel (reelStep s ev) = Some r' \<and> reelInv R C c0 r'"
proof (cases ev)
  case SpinTick
  then show ?thesis using spinTick_inv[OF assms] by (simp add: reelStep_def)
next
  case (DropTweenComplete c)
  then show ?thesis using dropTweenComplete_inv[OF assms] by (simp add: reelStep_def)
next
  case StopCall
  then show ?thesis using stopCall_inv[OF assms] by simp
qed

lemma reelRun_inv:
  assumes "reel s = Some r" "reelInv R C c0 r"
  shows "\<exists>r'. reel (reelRun evs s) = Some r' \<and> reelInv R C c0 r'"
  using assms unfolding reelRun_def
proof (induction evs arbitrary: s r)
  case Nil
  then show ?case by simp
next
  case (Cons ev evs)
  obtain r1 where r1: "reel (reelStep s ev) = Some r1" "reelInv R C c0 r1"
    using reelStep_inv[OF Cons.prems] by blast
  show ?case using Cons.IH[OF r1] by simp
qed

lemma forE_nonempty:
  assumes "forE xs body acc = Inr m"
    and "\<And>x a b. x \<in> set xs \<Longrightarrow> body x a = Inr b \<Longrightarrow> b \<noteq> []"
    and "acc \<noteq> [] \<or> xs \<noteq> []"
  shows "m \<noteq> []"
  using assms
proof (induction xs arbitrary: acc)
  case Nil
  then show ?case by simp
next
  case (Cons x xs)
  obtain a where a: "body x acc = Inr a" "forE xs body a = Inr m"
    using Cons.prems(1) by (auto split: sum.splits)
  have ne: "a \<noteq> []" using Cons.prems(2)[of x acc a] a by simp
  show ?case
  proof (rule Cons.IH[OF a(2)])
    fix y a' b assume "y \<in> set xs" "body y a' = Inr b"
    then show "b \<noteq> []" using Cons.prems(2)[of y a' b] by simp
  next
    show "a \<noteq> [] \<or> xs \<noteq> []" using ne by simp
  qed
qed

lemma mapSet_nonempty: "mapSet k v m \<noteq> []"
  by (cases m) (simp_all add: mapSet_def)

lemma drawGrid_nonempty:
  assumes "drawGrid g s = Inr s'"
  shows "cellMap s' \<noteq> []"
proof -
  let ?rows = "[0..<max 1 (rows (boardSize s))]"
  let ?cols = "[0..<max 1 (cols (boardSize s))]"
  let ?inner = "\<lambda>r. forE ?cols
                   (\<lambda>c m. case arr g (int r) of
                             None \<Rightarrow> Inl TypeError
                           | Some rw \<Rightarrow>
                               Inr (mapSet (int r, int c)
                                      (newContainer (arr rw (int c)) (int r) (int c)) m))"
  obtain m where m: "forE ?rows ?inner [] = Inr m" and c: "cellMap s' = m"
    using assms unfolding drawGrid_def Let_def by (auto split: sum.splits)
  have inner: "b \<noteq> []" if "?inner r a = Inr b" for r a b
  proof (rule forE_nonempty[OF that])
    fix x a' b'
    assume "(case arr g (int r) of
               None \<Rightarrow> Inl TypeError
             | Some rw \<Rightarrow> Inr (mapSet (int r, int x)
                                 (newContainer (arr rw (int x)) (int r) (int x)) a')) = Inr b'"
    then show "b' \<noteq> []" by (auto simp: mapSet_nonempty split: option.splits)
  next
    show "a \<noteq> [] \<or> ?cols \<noteq> []" by simp
  qed
  have "m \<noteq> []"
  proof (rule forE_nonempty[OF m])
    fix x a b assume "?inner x a = Inr b"
    then show "b \<noteq> []" by (rule inner)
  next
    show "[] \<noteq> [] \<or> ?rows \<noteq> []" by simp
  qed
  then show ?thesis using c by simp
qed

lemma stCol_initColumn: "stCol (initColumn draws pos syms nrows entries c) = c"
  by (simp add: initColumn_def Let_def)

lemma playBoardIntro_reel:
  assumes "cellMap s \<noteq> []" and "fillMode s = Some Rodillo"
  shows "\<exists>m f k. snd (playBoardIntro s)
           = s\<lparr> cellMap := m,
                reel := Some \<lparr> columnStates = map f [0..<max 1 (cols (boardSize s))],
                               lastColumnSpinSteps = 0, stopSequenceScheduled = False,
                               requiredLastColumnSteps = max 1 (rows (boardSize s)) * 2,
                               reelCols = max 1 (cols (boardSize s)),
                               pendingStops = [], stopped = [] \<rparr>,
                rndPos := k \<rparr>
         \<and> (\<forall>c. stCol (f c) = c)"
proof -
  have ne: "length (cellMap s) \<noteq> 0" using assms(1) by simp
  have "\<exists>m f k. playBoardIntro s
           = (fst (playBoardIntro s),
              s\<lparr> cellMap := m,
                reel := Some \<lparr> columnStates = map f [0..<max 1 (cols (boardSize s))],
                               lastColumnSpinSteps = 0, stopSequenceScheduled = False,
                               requiredLastColumnSteps = max 1 (rows (boardSize s)) * 2,
                               reelCols = max 1 (cols (boardSize s)),
                               pendingStops = [], stopped = [] \<rparr>,
                rndPos := k \<rparr>)
         \<and> (\<forall>c. stCol (f c) = c)"
    unfolding playBoardIntro_def Let_def
    apply (simp only: ne assms(2) if_True if_False simp_thms fst_conv)
    apply (intro exI conjI)
     apply (rule refl)
    apply (rule allI)
    apply (rule stCol_initColumn)
    done
  then show ?thesis by (metis snd_conv)
qed

lemma renderPlay_intro:
  "\<exists>s4 d. renderPlay p s = Inr (delayedCall d (RunStep p 0) (snd (playBoardIntro s4)))
      \<and> cellMap s4 \<noteq> [] \<and> fillMode s4 = fillMode s
      \<and> boardSize s4 = \<lparr> rows = max 1 (rows (pickBoardSize (Some p) (previewMode s) (previewSize s))),
                         cols = max 1 (cols (pickBoardSize (Some p) (previewMode s) (previewSize s))) \<rparr>"
proof -
  define nr where "nr = max 1 (rows (pickBoardSize (Some p) (previewMode s) (previewSize s)))"
  define nc where "nc = max 1 (cols (pickBoardSize (Some p) (previewMode s) (previewSize s)))"
  define g where "g = normalizeGrid (grid0 p) nr nc"
  define s3 where "s3 = s\<lparr> timers := [], currentPlay := Some p, accumulatedWin := 0,
                            boardSize := \<lparr> rows = nr, cols = nc \<rparr>, grid := Some g \<rparr>"
  have mx: "max 1 nr = nr" "max 1 nc = nc" by (simp_all add: nr_def nc_def)
  have bs3: "boardSize s3 = \<lparr> rows = nr, cols = nc \<rparr>" by (simp add: s3_def)
  have rows_ok: "arr g (int r) \<noteq> None" if "r < max 1 (rows (boardSize s3))" for r
  proof -
    have "r < nr" using that by (simp only: bs3 GridSize.select_convs mx)
    then show ?thesis unfolding g_def by (rule arr_normalizeGrid)
  qed
  have "\<exists>m. drawGrid g s3 = Inr (s3\<lparr> cellMap := m,
            grid := Some (normalizeGrid g (max 1 (rows (boardSize s3))) (max 1 (cols (boardSize s3)))),
            boardSize := \<lparr> rows = max 1 (rows (boardSize s3)), cols = max 1 (cols (boardSize s3)) \<rparr> \<rparr>)"
    by (rule drawGrid_ok) (rule rows_ok)
  then obtain m where m: "drawGrid g s3 = Inr (s3\<lparr> cellMap := m,
            grid := Some (normalizeGrid g nr nc), boardSize := \<lparr> rows = nr, cols = nc \<rparr> \<rparr>)"
    by (auto simp only: bs3 GridSize.select_convs mx)
  define s4 where "s4 = s3\<lparr> cellMap := m, grid := Some (normalizeGrid g nr nc),
                            boardSize := \<lparr> rows = nr, cols = nc \<rparr> \<rparr>"
  have dg: "drawGrid g s3 = Inr s4" using m by (simp add: s4_def)
  have ne: "cellMap s4 \<noteq> []" using drawGrid_nonempty[OF dg] .
  have rp: "renderPlay p s = Inr (delayedCall (max 320 (fst (playBoardIntro s4) + 120)) (RunStep p 0)
                          (snd (playBoardIntro s4)))"
    unfolding renderPlay_def Let_def
    by (simp add: nr_def[symmetric] nc_def[symmetric] g_def[symmetric] s3_def[symmetric] dg
                  split_beta del: One_nat_def)
  have "fillMode s4 = fillMode s" "boardSize s4 = \<lparr> rows = nr, cols = nc \<rparr>"
    by (simp_all add: s4_def s3_def)
  then show ?thesis using rp ne unfolding nr_def nc_def by blast
qed

text \<open>
  Claim C7.  In rodillo mode \<open>renderPlay\<close> leaves a reel with one column state per board
  column, no stop call scheduled and a required count of rows times 2 ticks for the last
  column.  Whatever spin ticks, drop-tween completions and stop calls follow, in any
  order: a stop call is pending or has run only after the stop sequence was scheduled;
  once it is scheduled the last column has counted at least rows times 2 spin ticks and
  its strip cursor has advanced by at least that much since the intro; the columns that
  have stopped are the columns 0, 1, 2, ... from the left, in that order, and every
  remaining column \<open>c\<close> has its stop call pending with the delay \<open>c * stopDelay\<close>, so the
  rightmost column is the last to stop.
\<close>

theorem reel_stops_after_minimum_spin:
  assumes "fillMode s = Some Rodillo"
  shows "\<exists>s1 r0. renderPlay p s = Inr s1 \<and> reel s1 = Some r0
           \<and> requiredLastColumnSteps r0 = rows (boardSize s1) * 2
           \<and> length (columnStates r0) = cols (boardSize s1)
           \<and> lastColumnSpinSteps r0 = 0 \<and> \<not> stopSequenceScheduled r0
           \<and> pendingStops r0 = [] \<and> stopped r0 = []
           \<and> (\<forall>evs. \<exists>r. reel (reelRun evs s1) = Some r
                 \<and> length (columnStates r) = cols (boardSize s1)
                 \<and> (stopped r \<noteq> [] \<or> pendingStops r \<noteq> [] \<longrightarrow> stopSequenceScheduled r)
                 \<and> (stopSequenceScheduled r \<longrightarrow>
                        rows (boardSize s1) * 2 \<le> lastColumnSpinSteps r
                      \<and> stripCursor (last (columnStates r0)) + rows (boardSize s1) * 2
                           \<le> stripCursor (last (columnStates r))
                      \<and> stopped r = [0..<length (stopped r)]
                      \<and> pendingStops r =
                           map (\<lambda>c. (c * stopDelay, c)) [length (stopped r)..<cols (boardSize s1)]))"
proof -
  define nr where "nr = max 1 (rows (pickBoardSize (Some p) (previewMode s) (previewSize s)))"
  define nc where "nc = max 1 (cols (pickBoardSize (Some p) (previewMode s) (previewSize s)))"
  obtain s4 d where s4: "renderPlay p s = Inr (delayedCall d (RunStep p 0) (snd (playBoardIntro s4)))"
      "cellMap s4 \<noteq> []" "fillMode s4 = fillMode s" "boardSize s4 = \<lparr> rows = nr, cols = nc \<rparr>"
    using renderPlay_intro[of p s] unfolding nr_def nc_def by blast
  have mx: "max 1 nr = nr" "max 1 nc = nc" "0 < nc" by (simp_all add: nr_def nc_def)
  define s1 where "s1 = delayedCall d (RunStep p 0) (snd (playBoardIntro s4))"
  obtain m f k where pi: "snd (playBoardIntro s4)
           = s4\<lparr> cellMap := m,
                reel := Some \<lparr> columnStates = map f [0..<max 1 (cols (boardSize s4))],
                               lastColumnSpinSteps = 0, stopSequenceScheduled = False,
                               requiredLastColumnSteps = max 1 (rows (boardSize s4)) * 2,
                               reelCols = max 1 (cols (boardSize s4)),
                               pendingStops = [], stopped = [] \<rparr>,
                rndPos := k \<rparr>"
      and f: "\<forall>c. stCol (f c) = c"
    using playBoardIntro_reel[OF s4(2)] s4(3) assms by auto
  define r0 where "r0 = \<lparr> columnStates = map f [0..<nc],
                               lastColumnSpinSteps = 0, stopSequenceScheduled = False,
                               requiredLastColumnSteps = nr * 2,
                               reelCols = nc, pendingStops = [], stopped = [] \<rparr>"
  have r1: "reel s1 = Some r0" and bs1: "boardSize s1 = \<lparr> rows = nr, cols = nc \<rparr>"
    unfolding s1_def pi by (simp_all add: delayedCall_def s4(4) mx r0_def del: One_nat_def)
  have lst: "last (columnStates r0) = columnStates r0 ! (nc - 1)"
    using mx(3) by (simp add: r0_def last_conv_nth)
  have inv0: "reelInv nr nc (stripCursor (last (columnStates r0))) r0"
    unfolding lst using mx(3) f by (simp add: reelInv_def r0_def)
  have main: "\<exists>r. reel (reelRun evs s1) = Some r
                 \<and> length (columnStates r) = nc
                 \<and> (stopped r \<noteq> [] \<or> pendingStops r \<noteq> [] \<longrightarrow> stopSequenceScheduled r)
                 \<and> (stopSequenceScheduled r \<longrightarrow>
                        nr * 2 \<le> lastColumnSpinSteps r
                      \<and> stripCursor (last (columnStates r0)) + nr * 2
                           \<le> stripCursor (last (columnStates r))
                      \<and> stopped r = [0..<length (stopped r)]
                      \<and> pendingStops r =
                           map (\<lambda>c. (c * stopDelay, c)) [length (stopped r)..<nc])" for evs
  proof -
    obtain r where r: "reel (reelRun evs s1) = Some r"
        "reelInv nr nc (stripCursor (last (columnStates r0))) r"
      using reelRun_inv[OF r1 inv0] by blast
    have len: "length (columnStates r) = nc" using r(2) by (simp add: reelInv_def)
    have lr: "last (columnStates r) = columnStates r ! (nc - 1)"
      using len mx(3) by (metis last_conv_nth length_0_conv less_numeral_extra(3))
    have a: "stopped r \<noteq> [] \<or> pendingStops r \<noteq> [] \<longrightarrow> stopSequenceScheduled r"
      using r(2) by (auto simp: reelInv_def split: if_splits)
    have b: "stopSequenceScheduled r \<longrightarrow>
                        nr * 2 \<le> lastColumnSpinSteps r
                      \<and> stripCursor (last (columnStates r0)) + nr * 2
                           \<le> stripCursor (last (columnStates r))
                      \<and> stopped r = [0..<length (stopped r)]
                      \<and> pendingStops r =
                           map (\<lambda>c. (c * stopDelay, c)) [length (stopped r)..<nc]"
      using r(2) unfolding lr by (auto simp: reelInv_def split: if_splits)
    show ?thesis using r(1) len a b by blast
  qed
  have "requiredLastColumnSteps r0 = nr * 2" "length (columnStates r0) = nc"
       "lastColumnSpinSteps r0 = 0" "\<not> stopSequenceScheduled r0"
       "pendingStops r0 = []" "stopped r0 = []"
    by (simp_all add: r0_def)
  then show ?thesis
    using s4(1)[folded s1_def] r1 main
    by (intro exI[of _ s1] exI[of _ r0]) (simp add: bs1)
qed

lemma examplePlay_boardSize:
  "pickBoardSize (Some examplePlay) md pv = \<lparr> rows = 3, cols = 5 \<rparr>"
  by (simp add: pickBoardSize_def examplePlay_def numeral_3_eq_3 eval_nat_numeral)

theorem reel_stops_after_minimum_spin_witness:
  "map_sum id (map_option requiredLastColumnSteps \<circ> reel) (renderPlay examplePlay rodilloScene)
     = Inr (Some 6)
   \<and> map_sum id (map_option stopSequenceScheduled \<circ> reel) (renderPlay examplePlay rodilloScene)
     = Inr (Some False)"
proof -
  have fm: "fillMode rodilloScene = Some Rodillo"
    by (simp add: rodilloScene_def newScene_def)
  obtain s1 r0 where s1: "renderPlay examplePlay rodilloScene = Inr s1" "reel s1 = Some r0"
      "requiredLastColumnSteps r0 = rows (boardSize s1) * 2" "\<not> stopSequenceScheduled r0"
    using reel_stops_after_minimum_spin [OF fm, of examplePlay] by blast
  obtain s1' where s1': "renderPlay examplePlay rodilloScene = Inr s1'"
      "boardSize s1' = \<lparr> rows = max 1 (rows (pickBoardSize (Some examplePlay)
                                   (previewMode rodilloScene) (previewSize rodilloScene))),
                          cols = max 1 (cols (pickBoardSize (Some examplePlay)
                                   (previewMode rodilloScene) (previewSize rodilloScene))) \<rparr>"
    using renderPlay_props[of examplePlay rodilloScene] by blast
  have bs: "rows (boardSize s1) = 3" using s1(1) s1' by (simp add: examplePlay_boardSize)
  show ?thesis using s1 bs by simp
qed

end
